theory Spec2Isabelle
  imports Complex_Main "HOL-Library.Word" "HOL-Library.Log_Nat"
begin

unbundle bit_operations_syntax

section \<open>Machine integers and option flags of stress-ng.c\<close>

type_synonym uint64_t = "64 word"
type_synonym int32_t = "32 word"

definition OPT_FLAGS_NO_CLEAN :: int32_t where
  "OPT_FLAGS_NO_CLEAN = 0x00000001"

definition OPT_FLAGS_DRY_RUN :: int32_t where
  "OPT_FLAGS_DRY_RUN = 0x00000002"

definition PR_ERR :: int32_t where
  "PR_ERR = 0x00010000"

definition PR_INF :: int32_t where
  "PR_INF = 0x00020000"

text \<open>The start value of the global \<^verbatim>\<open>opt_flags\<close>: \<^verbatim>\<open>PR_ERR | PR_INF\<close>.\<close>

definition opt_flags_default :: int32_t where
  "opt_flags_default = PR_ERR OR PR_INF"

text \<open>C's logical negation \<^verbatim>\<open>!x\<close> on an \<^verbatim>\<open>int\<close>: 1 when \<open>x\<close> is zero, else 0.\<close>

definition c_not :: "int32_t \<Rightarrow> int32_t" where
  "c_not x = (if x = 0 then 1 else 0)"

text \<open>A C condition holds when its value is not zero.\<close>

definition c_true :: "int32_t \<Rightarrow> bool" where
  "c_true x = (x \<noteq> 0)"

section \<open>Budget division: the macro \<^verbatim>\<open>DIV_OPS_BY_PROCS\<close>\<close>

text \<open>
  Unsigned 64-bit division as C has it: dividing by zero is undefined behaviour, which
  the model reports as \<open>None\<close> instead of HOL's \<open>x div 0 = 0\<close>.
\<close>

definition c_udiv64 :: "uint64_t \<Rightarrow> uint64_t \<Rightarrow> uint64_t option" where
  "c_udiv64 a b = (if b = 0 then None else Some (a div b))"

text \<open>
  \<^verbatim>\<open>#define DIV_OPS_BY_PROCS(opt, nproc) opt = (nproc == 0) ? 0 : opt / nproc;\<close>
  with \<open>opt\<close> a \<^verbatim>\<open>uint64_t\<close> and \<open>nproc\<close> an \<^verbatim>\<open>int32_t\<close>: the usual arithmetic
  conversions sign-extend \<open>nproc\<close> to 64 bits before the unsigned division. The result
  is the new value of \<open>opt\<close>.
\<close>

definition DIV_OPS_BY_PROCS :: "uint64_t \<Rightarrow> int32_t \<Rightarrow> uint64_t option" where
  "DIV_OPS_BY_PROCS opt nproc =
     (if nproc = 0 then Some 0 else c_udiv64 opt (scast nproc))"

section \<open>The hdd stressor's clean-up conditions (\<^verbatim>\<open>stress_io\<close>)\<close>

text \<open>Line 365, before the writes: \<^verbatim>\<open>if (!(opt_flags & OPT_FLAGS_NO_CLEAN))\<close>.\<close>

definition unlink_before_write :: "int32_t \<Rightarrow> bool" where
  "unlink_before_write opt_flags = c_true (c_not (opt_flags AND OPT_FLAGS_NO_CLEAN))"

text \<open>
  Line 378, after \<^verbatim>\<open>close(fd)\<close>: \<^verbatim>\<open>if ((!opt_flags & OPT_FLAGS_NO_CLEAN))\<close>. The unary
  \<^verbatim>\<open>!\<close> binds tighter than \<^verbatim>\<open>&\<close>, so the negation applies to \<open>opt_flags\<close> alone.
\<close>

definition unlink_after_close :: "int32_t \<Rightarrow> bool" where
  "unlink_after_close opt_flags = c_true (c_not opt_flags AND OPT_FLAGS_NO_CLEAN)"

datatype io_event = Mkstemp | Unlink | Write | Close | ExitFailure

text \<open>
  One pass of the body of the \<^verbatim>\<open>do ... while\<close> loop of \<^verbatim>\<open>stress_io\<close>, as the file
  operations it performs. \<open>writes\<close> gives the outcome of each \<^verbatim>\<open>write\<close> the inner loop
  makes before it stops (\<open>True\<close>: written, \<open>False\<close>: the write failed and the worker
  exits at once, leaving the descriptor and the file behind).
\<close>

fun hdd_writes :: "bool list \<Rightarrow> io_event list \<times> bool" where
  "hdd_writes [] = ([], True)"
| "hdd_writes (ok # ws) =
     (if ok then (let (es, fin) = hdd_writes ws in (Write # es, fin))
      else ([Write, ExitFailure], False))"

definition stress_io_pass :: "int32_t \<Rightarrow> bool \<Rightarrow> bool list \<Rightarrow> io_event list" where
  "stress_io_pass opt_flags mkstemp_ok writes =
     (if \<not> mkstemp_ok then [Mkstemp, ExitFailure]
      else
        [Mkstemp] @ (if unlink_before_write opt_flags then [Unlink] else []) @
        (let (es, fin) = hdd_writes writes in
           if \<not> fin then es
           else es @ [Close] @ (if unlink_after_close opt_flags then [Unlink] else [])))"

section \<open>Double-precision arithmetic\<close>

text \<open>
  The timestamps of the sources are C \<^verbatim>\<open>double\<close>s. A \<^verbatim>\<open>double\<close> is modelled by the
  rational number it stands for, and every operation rounds its exact result to the
  nearest number with a 53-bit significand, ties to the even significand, as IEEE 754
  binary64 arithmetic does. The exponent range is not modelled: the values at hand
  (seconds since the epoch, microsecond counts below \<open>2 ^ 63\<close> and their quotients by a
  million) are zero or lie between \<open>2 ^ - 1022\<close> and \<open>2 ^ 1024\<close> in magnitude.
\<close>

text \<open>The nearest integer, the even one of two equally near.\<close>

definition round_even :: "rat \<Rightarrow> int" where
  "round_even z =
     (let f = \<lfloor>z\<rfloor>; r = z - of_int f in
      if r < 1 / 2 then f else if 1 / 2 < r then f + 1 else if even f then f else f + 1)"

text \<open>The exponent \<open>e\<close> with \<open>2 ^ e \<le> \<bar>x\<bar> < 2 ^ (e + 1)\<close>, for \<open>x\<close> other than zero.\<close>

definition binade :: "rat \<Rightarrow> int" where
  "binade x =
     (if 1 \<le> \<bar>x\<bar> then bitlen \<lfloor>\<bar>x\<bar>\<rfloor> - 1 else - bitlen (\<lceil>1 / \<bar>x\<bar>\<rceil> - 1))"

definition to_double :: "rat \<Rightarrow> rat" where
  "to_double x =
     (if x = 0 then 0
      else let u = 2 powi (binade x - 52) in of_int (round_even (x / u)) * u)"

text \<open>
  The conversion \<^verbatim>\<open>(double)k\<close> of a 64-bit integer, and the sum, difference and quotient
  of two \<^verbatim>\<open>double\<close>s.
\<close>

definition double_of_int :: "int \<Rightarrow> rat" where
  "double_of_int k = to_double (of_int k)"

definition dadd :: "rat \<Rightarrow> rat \<Rightarrow> rat" where
  "dadd a b = to_double (a + b)"

definition dsub :: "rat \<Rightarrow> rat \<Rightarrow> rat" where
  "dsub a b = to_double (a - b)"

definition ddiv :: "rat \<Rightarrow> rat \<Rightarrow> rat" where
  "ddiv a b = to_double (a / b)"

section \<open>The orchestrator: \<^verbatim>\<open>main\<close> of stress-ng.c from line 619\<close>

text \<open>
  Option parsing is left out: the model starts from the globals it leaves behind (the
  budget division of lines 609 to 612 is the macro above; the orchestrator itself never
  reads the budgets).
  \<^verbatim>\<open>check_value\<close> admits worker counts from 0 to 1024 only, so the \<^verbatim>\<open>int32_t\<close>
  arithmetic on counts, indices and their products never wraps, and counts are natural
  numbers. The arrays indexed by the stressor category (\<^verbatim>\<open>num_procs\<close>,
  \<^verbatim>\<open>started_procs\<close>, \<^verbatim>\<open>procs\<close>) are functions of the category index; only the
  indices below \<^verbatim>\<open>STRESS_MAX\<close> are ever used. \<^verbatim>\<open>opt_backoff\<close> comes from \<^verbatim>\<open>atoi\<close>, so
  its \<^verbatim>\<open>int64_t\<close> product with a round number below 4096 does not wrap either.
  Timestamps are \<^verbatim>\<open>double\<close>s, computed with the rounding arithmetic above.
\<close>

definition STRESS_IOSYNC :: nat where "STRESS_IOSYNC = 0"
definition STRESS_CPU :: nat where "STRESS_CPU = 1"
definition STRESS_VM :: nat where "STRESS_VM = 2"
definition STRESS_HDD :: nat where "STRESS_HDD = 3"
definition STRESS_MAX :: nat where "STRESS_MAX = 4"

definition EXIT_SUCCESS :: int where "EXIT_SUCCESS = 0"
definition EXIT_FAILURE :: int where "EXIT_FAILURE = 1"

record proc_info_t =
  pid :: int
  start :: rat
  finish :: rat

text \<open>What \<^verbatim>\<open>calloc\<close> hands out: a zeroed entry.\<close>

definition zero_proc :: proc_info_t where
  "zero_proc = \<lparr>pid = 0, start = 0, finish = 0\<rparr>"

text \<open>
  What a forked child does in the \<^verbatim>\<open>case 0\<close> branch, with the values of \<open>i\<close>, \<open>j\<close>
  and \<open>n_procs\<close> it inherits: \<^verbatim>\<open>alarm(opt_timeout)\<close> (an \<^verbatim>\<open>unsigned int\<close>),
  \<^verbatim>\<open>usleep(opt_backoff * n_procs)\<close> (a 32-bit \<^verbatim>\<open>useconds_t\<close>) and, unless this is a dry
  run, \<^verbatim>\<open>child_funcs[i](counters + (j * max) + i)\<close>; the counter is given as its offset
  from \<^verbatim>\<open>counters\<close>, in counters.
\<close>

record child_t =
  child_category :: nat
  child_index :: nat
  child_round :: nat
  child_alarm :: "32 word"
  child_usleep :: "32 word"
  child_counter :: "nat option"

record config =
  num_procs :: "nat \<Rightarrow> nat"
  opt_flags :: int32_t
  opt_timeout :: uint64_t
  opt_backoff :: int

text \<open>The result of \<^verbatim>\<open>fork\<close> as the parent sees it: -1, or the child's process id.\<close>

datatype fork_result = ForkFailed | Forked int

text \<open>
  The environment of one run: whether each system call succeeds, what the \<open>k\<close>-th call
  of \<^verbatim>\<open>fork\<close> and of \<^verbatim>\<open>time_now\<close> in the orchestrator returns (the \<^verbatim>\<open>double\<close> it
  returns, in seconds), and whether a stale object of the same name exists when the run
  begins.
\<close>

record env =
  calloc_ok :: "nat \<Rightarrow> bool"
  shm_stale :: bool
  shm_open_ok :: bool
  ftruncate_ok :: bool
  mmap_ok :: bool
  fork_result :: "nat \<Rightarrow> fork_result"
  time_now :: "nat \<Rightarrow> rat"

text \<open>
  The system calls and messages of the orchestrator, in the order it makes them.
  \<open>Kill p\<close> is \<^verbatim>\<open>kill(p, SIGALRM)\<close>, the only signal the orchestrator sends; \<open>Fork\<close>
  and \<open>Wait\<close> are calls of \<^verbatim>\<open>fork\<close> and \<^verbatim>\<open>wait\<close>, whatever they return; the sizes
  are in bytes. \<open>Print\<close> carries the fixed part of a message written by \<^verbatim>\<open>pr_err\<close>,
  \<^verbatim>\<open>pr_inf\<close> or \<^verbatim>\<open>printf\<close>; the debug messages of \<^verbatim>\<open>pr_dbg\<close> are left out.
\<close>

datatype event =
    ShmUnlink
  | ShmOpen
  | Ftruncate nat
  | Mmap nat
  | CloseFd
  | Fork
  | Kill int
  | Wait
  | Print string

record state =
  procs :: "nat \<Rightarrow> nat \<Rightarrow> proc_info_t"
  started_procs :: "nat \<Rightarrow> nat"
  forks :: nat
  clock_reads :: nat
  time_start :: rat
  children :: "child_t list"
  trace :: "event list"

definition log_event :: "event \<Rightarrow> state \<Rightarrow> state" where
  "log_event e s = s\<lparr>trace := trace s @ [e]\<rparr>"

text \<open>\<^verbatim>\<open>pr_err\<close> and \<^verbatim>\<open>pr_inf\<close> print only when \<open>opt_flags\<close> has their bit.\<close>

definition pr_err :: "config \<Rightarrow> string \<Rightarrow> state \<Rightarrow> state" where
  "pr_err cfg msg s = (if opt_flags cfg AND PR_ERR \<noteq> 0 then log_event (Print msg) s else s)"

definition pr_inf :: "config \<Rightarrow> string \<Rightarrow> state \<Rightarrow> state" where
  "pr_inf cfg msg s = (if opt_flags cfg AND PR_INF \<noteq> 0 then log_event (Print msg) s else s)"

text \<open>
  Whether the shared-memory name exists after a sequence of events, given whether it
  existed before: \<^verbatim>\<open>shm_open\<close> with \<^verbatim>\<open>O_CREAT\<close> creates it, \<^verbatim>\<open>shm_unlink\<close> removes it (and
  fails harmlessly, its result ignored, when there is nothing to remove).
\<close>

fun shm_linked :: "bool \<Rightarrow> event list \<Rightarrow> bool" where
  "shm_linked b [] = b"
| "shm_linked b (ShmOpen # es) = shm_linked True es"
| "shm_linked b (ShmUnlink # es) = shm_linked False es"
| "shm_linked b (e # es) = shm_linked b es"

text \<open>The pids in the table, in the order the two loops of \<^verbatim>\<open>send_alarm\<close> visit them.\<close>

definition tracked :: "state \<Rightarrow> (nat \<times> nat) list" where
  "tracked s = concat (map (\<lambda>i. map (\<lambda>j. (i, j)) [0..<started_procs s i]) [0..<STRESS_MAX])"

definition send_alarm :: "state \<Rightarrow> state" where
  "send_alarm s = s\<lparr>trace := trace s @ map (\<lambda>(i, j). Kill (pid (procs s i j))) (tracked s)\<rparr>"

text \<open>
  \<^verbatim>\<open>proc_finished\<close>: reads the clock, then stamps the first entry with the given pid.
\<close>

definition proc_finished :: "env \<Rightarrow> int \<Rightarrow> state \<Rightarrow> state" where
  "proc_finished e p s =
     (let now = time_now e (clock_reads s);
          s1 = s\<lparr>clock_reads := Suc (clock_reads s)\<rparr>
      in case find (\<lambda>(i, j). pid (procs s i j) = p) (tracked s) of
           None \<Rightarrow> s1
         | Some (i, j) \<Rightarrow>
             s1\<lparr>procs := (procs s)(i := (procs s i)(j := (procs s i j)\<lparr>finish := now\<rparr>))\<rparr>)"

text \<open>Lines 619 to 628: the largest count, and the sum of the counts.\<close>

definition max_procs :: "config \<Rightarrow> nat" where
  "max_procs cfg = fold (\<lambda>i m. if m < num_procs cfg i then num_procs cfg i else m) [0..<STRESS_MAX] 0"

definition total_procs :: "config \<Rightarrow> nat" where
  "total_procs cfg = fold (\<lambda>i t. t + num_procs cfg i) [0..<STRESS_MAX] 0"

text \<open>Line 650: \<^verbatim>\<open>len = sizeof(uint64_t) * STRESS_MAX * max\<close>, in bytes.\<close>

definition shm_len :: "config \<Rightarrow> nat" where
  "shm_len cfg = 8 * STRESS_MAX * max_procs cfg"

text \<open>The number of counters the mapped region holds.\<close>

definition shm_counters :: "config \<Rightarrow> nat" where
  "shm_counters cfg = shm_len cfg div 8"

text \<open>
  The body of the inner loop of lines 670 to 694, for category \<open>i\<close> in round
  \<open>n\<close> (the value of \<^verbatim>\<open>n_procs\<close>), with \<open>mx\<close> the value of \<^verbatim>\<open>max\<close>. \<open>Inl\<close> is the
  \<^verbatim>\<open>goto out\<close> after a failed fork.
\<close>

definition the_child :: "config \<Rightarrow> nat \<Rightarrow> nat \<Rightarrow> nat \<Rightarrow> nat \<Rightarrow> child_t" where
  "the_child cfg mx n i j =
     \<lparr>child_category = i, child_index = j, child_round = n,
      child_alarm = ucast (opt_timeout cfg),
      child_usleep = word_of_int (opt_backoff cfg * int n),
      child_counter =
        (if c_true (c_not (opt_flags cfg AND OPT_FLAGS_DRY_RUN)) then Some (j * mx + i) else None)\<rparr>"

definition launch_one :: "config \<Rightarrow> env \<Rightarrow> nat \<Rightarrow> nat \<Rightarrow> nat \<Rightarrow> state \<Rightarrow> state + state" where
  "launch_one cfg e mx n i s =
     (let j = started_procs s i in
      if j < num_procs cfg i then
        (case fork_result e (forks s) of
           ForkFailed \<Rightarrow>
             Inl (send_alarm (pr_err cfg ''Cannot fork''
                    (log_event Fork (s\<lparr>forks := Suc (forks s)\<rparr>))))
         | Forked p \<Rightarrow>
             Inr (log_event Fork
                    (s\<lparr>forks := Suc (forks s),
                       children := children s @ [the_child cfg mx n i j],
                       procs := (procs s)(i := (procs s i)(j :=
                          (procs s i j)\<lparr>pid := p,
                             start := dadd (time_now e (clock_reads s))
                               (ddiv (double_of_int (opt_backoff cfg * int n)) 1000000)\<rparr>)),
                       clock_reads := Suc (clock_reads s),
                       started_procs := (started_procs s)(i := Suc j)\<rparr>)))
      else Inr s)"

text \<open>The inner loop over the categories, and the outer loop over the rounds.\<close>

fun launch_round :: "config \<Rightarrow> env \<Rightarrow> nat \<Rightarrow> nat \<Rightarrow> nat list \<Rightarrow> state \<Rightarrow> state + state" where
  "launch_round cfg e mx n [] s = Inr s"
| "launch_round cfg e mx n (i # is) s =
     (case launch_one cfg e mx n i s of
        Inl a \<Rightarrow> Inl a
      | Inr s' \<Rightarrow> launch_round cfg e mx n is s')"

fun launch_rounds :: "config \<Rightarrow> env \<Rightarrow> nat \<Rightarrow> nat list \<Rightarrow> state \<Rightarrow> state + state" where
  "launch_rounds cfg e mx [] s = Inr s"
| "launch_rounds cfg e mx (n # ns) s =
     (case launch_round cfg e mx n [0..<STRESS_MAX] s of
        Inl a \<Rightarrow> Inl a
      | Inr s' \<Rightarrow> launch_rounds cfg e mx ns s')"

definition launch :: "config \<Rightarrow> env \<Rightarrow> state \<Rightarrow> state + state" where
  "launch cfg e s = launch_rounds cfg e (max_procs cfg) [0..<total_procs cfg] s"

text \<open>
  The reap loop of lines 698 to 709, \<^verbatim>\<open>while (n_procs)\<close>. The list gives what the
  successive calls of \<^verbatim>\<open>wait\<close> return; the loop never looks at \<^verbatim>\<open>errno\<close>. When the
  list is used up with workers outstanding the orchestrator is still blocked in
  \<^verbatim>\<open>wait\<close>: \<open>Inl\<close> of the outstanding count and the state. \<open>Inr\<close> is the state in which
  the loop is left.
\<close>

fun reap :: "env \<Rightarrow> int list \<Rightarrow> nat \<Rightarrow> state \<Rightarrow> (nat \<times> state) + state" where
  "reap e ws 0 s = Inr s"
| "reap e [] (Suc n) s = Inl (Suc n, s)"
| "reap e (w # ws) (Suc n) s =
     (if 0 < w then reap e ws n (proc_finished e w (log_event Wait s))
      else if w = - 1 then
        reap e ws (Suc n) (log_event (Print ''Break'') (send_alarm (log_event Wait s)))
      else reap e ws (Suc n) (log_event Wait s))"

text \<open>
  How a run ends: the process exits with a code, or it is still blocked in \<^verbatim>\<open>wait\<close>
  with so many workers outstanding.
\<close>

datatype run = Exited int state | Waiting nat state

definition init_state :: state where
  "init_state =
     \<lparr>procs = (\<lambda>i j. zero_proc), started_procs = (\<lambda>i. 0), forks = 0, clock_reads = 0,
      time_start = 0, children = [], trace = []\<rparr>"

text \<open>
  Lines 642 to 665: the shared region. \<open>Inl\<close> is an \<^verbatim>\<open>exit(EXIT_FAILURE)\<close>.
\<close>

definition shm_setup :: "config \<Rightarrow> env \<Rightarrow> state \<Rightarrow> state + state" where
  "shm_setup cfg e s =
     (let s1 = log_event ShmUnlink s in
      if \<not> shm_open_ok e then Inl (pr_err cfg ''Cannot open shared memory region'' s1)
      else
        let s2 = log_event ShmOpen s1; s3 = log_event (Ftruncate (shm_len cfg)) s2 in
        if \<not> ftruncate_ok e then
          Inl (log_event ShmUnlink (log_event CloseFd
                 (pr_err cfg ''Cannot resize shared memory region'' s3)))
        else
          let s4 = log_event (Mmap (shm_len cfg)) s3 in
          if \<not> mmap_ok e then
            Inl (log_event ShmUnlink (log_event CloseFd
                   (pr_err cfg ''Cannot mmap to shared memory region'' s4)))
          else Inr (log_event CloseFd s4))"

text \<open>
  \<^verbatim>\<open>main\<close> from line 619 to its end. The label \<^verbatim>\<open>out\<close> (lines 728 to 730) is
  \<open>finish_out\<close>; the metrics report only prints and is left out.
\<close>

definition finish_out :: "state \<Rightarrow> run" where
  "finish_out s = Exited EXIT_SUCCESS (log_event ShmUnlink s)"

definition main :: "config \<Rightarrow> env \<Rightarrow> int list \<Rightarrow> run" where
  "main cfg e ws =
     (if \<not> list_all (calloc_ok e) [0..<STRESS_MAX] then
        Exited EXIT_FAILURE (pr_err cfg ''cannot allocate procs'' init_state)
      else if total_procs cfg = 0 then
        Exited EXIT_FAILURE (pr_err cfg ''No stress workers specified'' init_state)
      else
        (case shm_setup cfg e (pr_inf cfg ''dispatching hogs'' init_state) of
           Inl a \<Rightarrow> Exited EXIT_FAILURE a
         | Inr s \<Rightarrow>
             (case launch cfg e (s\<lparr>time_start := time_now e (clock_reads s),
                                     clock_reads := Suc (clock_reads s)\<rparr>) of
                Inl a \<Rightarrow> finish_out a
              | Inr s' \<Rightarrow>
                  (case reap e ws (total_procs cfg) s' of
                     Inl (n, b) \<Rightarrow> Waiting n b
                   | Inr s'' \<Rightarrow>
                       finish_out (pr_inf cfg ''successful run completed''
                         (s''\<lparr>clock_reads := Suc (clock_reads s'')\<rparr>))))))"

text \<open>The state in which a run ends or waits.\<close>

fun final_state :: "run \<Rightarrow> state" where
  "final_state (Exited c s) = s"
| "final_state (Waiting n s) = s"

text \<open>Used in the proofs: a stretch of events that leaves the shared-memory name alone.\<close>

definition no_shm :: "event list \<Rightarrow> bool" where
  "no_shm es = (ShmUnlink \<notin> set es \<and> ShmOpen \<notin> set es)"

text \<open>
  Used in the proofs: what holds of the children forked and the entries stamped so far.
  Every child was forked in the round that equals its index within its category and
  sleeps the backoff times that index (as a \<^verbatim>\<open>useconds_t\<close>); the children are the
  tracked entries; every tracked entry's start stamp is the \<^verbatim>\<open>double\<close> sum of a clock
  reading and the backoff times its index, in seconds.
\<close>

definition launch_inv :: "config \<Rightarrow> env \<Rightarrow> state \<Rightarrow> bool" where
  "launch_inv cfg e s \<longleftrightarrow>
     (\<forall>c \<in> set (children s).
        child_round c = child_index c \<and>
        child_usleep c = word_of_int (opt_backoff cfg * int (child_index c))) \<and>
     (\<lambda>c. (child_category c, child_index c)) ` set (children s) =
        {(i, j). i < STRESS_MAX \<and> j < started_procs s i} \<and>
     (\<forall>i < STRESS_MAX. \<forall>j < started_procs s i.
        \<exists>k. start (procs s i j) =
              dadd (time_now e k) (ddiv (double_of_int (opt_backoff cfg * int j)) 1000000))"

text \<open>
  The globals as they stand when no option is given (no workers, \<^verbatim>\<open>DEFAULT_TIMEOUT\<close>,
  \<^verbatim>\<open>DEFAULT_BACKOFF\<close>), and an environment in which every call succeeds, the \<open>k\<close>-th
  fork returns the pid \<open>100 + k\<close> and the \<open>k\<close>-th reading of the clock is \<open>k\<close> seconds.
\<close>

definition default_config :: config where
  "default_config =
     \<lparr>num_procs = (\<lambda>i. 0), opt_flags = opt_flags_default, opt_timeout = 86400,
      opt_backoff = 0\<rparr>"

definition good_env :: env where
  "good_env =
     \<lparr>calloc_ok = (\<lambda>i. True), shm_stale = False, shm_open_ok = True, ftruncate_ok = True,
      mmap_ok = True, fork_result = (\<lambda>k. Forked (100 + int k)), time_now = (\<lambda>k. of_nat k)\<rparr>"

section \<open>The generic worker loop: \<^verbatim>\<open>stress_null\<close>\<close>

definition EINTR :: int where "EINTR = 4"
definition EAGAIN :: int where "EAGAIN = 11"

text \<open>The two fields of \<^verbatim>\<open>args_t\<close> the loops use; \<open>counter\<close> is \<^verbatim>\<open>*args->counter\<close>.\<close>

record args_t =
  counter :: uint64_t
  max_ops :: uint64_t

text \<open>
  Modelled from the spec: \<^verbatim>\<open>inc_counter\<close>, which stress-ng.h defines and the sources
  at hand do not include. The spec's worker loop says "advance counter by one"; the
  counter is an unsigned 64-bit value.
\<close>

definition inc_counter :: "args_t \<Rightarrow> args_t" where
  "inc_counter a = a\<lparr>counter := counter a + 1\<rparr>"

text \<open>
  The loop condition shared by the workers:
  \<^verbatim>\<open>opt_do_run && (!args->max_ops || *args->counter < args->max_ops)\<close>.
\<close>

definition keep_going :: "bool \<Rightarrow> args_t \<Rightarrow> bool" where
  "keep_going run a = (run \<and> (max_ops a = 0 \<or> counter a < max_ops a))"

text \<open>
  What one pass of the loop of \<^verbatim>\<open>stress_null\<close> observes: the value \<^verbatim>\<open>write\<close> returns,
  \<^verbatim>\<open>errno\<close> after it, and \<^verbatim>\<open>opt_do_run\<close> when the loop condition is evaluated.
\<close>

record write_obs =
  write_ret :: int
  write_errno :: int
  do_run :: bool

text \<open>
  How the worker stands: its exit status (\<open>None\<close> while it is still in the loop), its
  arguments, whether the descriptor of /dev/null is open, and how many times it has
  called \<^verbatim>\<open>write\<close>.
\<close>

record null_result =
  nr_status :: "int option"
  nr_args :: args_t
  nr_fd_open :: bool
  nr_writes :: nat

text \<open>Leaving the loop by its condition: \<^verbatim>\<open>close(fd); return EXIT_SUCCESS\<close>.\<close>

definition null_done :: "nat \<Rightarrow> args_t \<Rightarrow> null_result" where
  "null_done k a = \<lparr>nr_status = Some EXIT_SUCCESS, nr_args = a, nr_fd_open = False, nr_writes = k\<rparr>"

text \<open>The error exit of lines 50 to 52: \<^verbatim>\<open>close(fd); return EXIT_FAILURE\<close>.\<close>

definition null_failed :: "nat \<Rightarrow> args_t \<Rightarrow> null_result" where
  "null_failed k a = \<lparr>nr_status = Some EXIT_FAILURE, nr_args = a, nr_fd_open = False, nr_writes = k\<rparr>"

text \<open>
  The \<^verbatim>\<open>do ... while\<close> loop of lines 42 to 57, driven by the list of observations; a
  \<^verbatim>\<open>continue\<close> goes to the loop condition. When the list is used up the worker is still
  in the loop, the descriptor open.
\<close>

fun null_loop :: "write_obs list \<Rightarrow> nat \<Rightarrow> args_t \<Rightarrow> null_result" where
  "null_loop [] k a = \<lparr>nr_status = None, nr_args = a, nr_fd_open = True, nr_writes = k\<rparr>"
| "null_loop (ob # obs) k a =
     (if write_ret ob \<le> 0 then
        (if write_errno ob = EAGAIN \<or> write_errno ob = EINTR then
           (if keep_going (do_run ob) a then null_loop obs (Suc k) a else null_done (Suc k) a)
         else if write_errno ob \<noteq> 0 then null_failed (Suc k) a
         else
           (if keep_going (do_run ob) a then null_loop obs (Suc k) a else null_done (Suc k) a))
      else
        (let a' = inc_counter a in
         if keep_going (do_run ob) a' then null_loop obs (Suc k) a' else null_done (Suc k) a'))"

definition stress_null :: "bool \<Rightarrow> write_obs list \<Rightarrow> args_t \<Rightarrow> null_result" where
  "stress_null open_ok obs a =
     (if \<not> open_ok then
        \<lparr>nr_status = Some EXIT_FAILURE, nr_args = a, nr_fd_open = False, nr_writes = 0\<rparr>
      else null_loop obs 0 a)"

section \<open>The parent's monitoring loop of \<^verbatim>\<open>stress_wait\<close>\<close>

text \<open>
  Which of the preprocessor conditions of lines 150 to 184 hold when the file is
  compiled: the macros \<^verbatim>\<open>WCONINUED\<close> and \<^verbatim>\<open>WIFCONINUED\<close> (so spelt in the source) being
  defined, and the feature test of line 164 that admits the \<^verbatim>\<open>waitid\<close> block.
\<close>

record wait_build =
  def_WCONINUED :: bool
  def_WIFCONINUED :: bool
  have_waitid :: bool

text \<open>
  What one pass of the loop observes: whether \<^verbatim>\<open>WIFCONTINUED(status)\<close> holds for the
  status \<^verbatim>\<open>waitpid\<close> left; \<^verbatim>\<open>opt_do_run\<close> at lines 155, 175 and 185; and whether the
  \<^verbatim>\<open>siginfo_t\<close> that \<^verbatim>\<open>waitid\<close> filled in reports a continued child.
\<close>

record wait_obs =
  status_continued :: bool
  run_after_waitpid :: bool
  info_continued :: bool
  run_after_waitid :: bool
  run_at_cond :: bool

text \<open>The wait calls made, each with whether \<^verbatim>\<open>WCONTINUED\<close> was passed.\<close>

datatype wait_call = Waitpid bool | Waitid bool

record wait_result =
  wr_args :: args_t
  wr_calls :: "wait_call list"
  wr_left :: bool

text \<open>
  Lines 157 to 162, and again 177 to 182: with \<^verbatim>\<open>WIFCONINUED\<close> defined the counter
  is incremented when \<^verbatim>\<open>WIFCONTINUED(status)\<close> holds, otherwise always.
\<close>

definition count_continued :: "wait_build \<Rightarrow> bool \<Rightarrow> args_t \<Rightarrow> args_t" where
  "count_continued b st a =
     (if def_WIFCONINUED b then (if st then inc_counter a else a) else inc_counter a)"

text \<open>
  The \<^verbatim>\<open>do ... while\<close> loop of lines 149 to 185. \<open>wr_left\<close> tells whether the loop
  has been left, or the observations are used up and the parent is still monitoring.
\<close>

fun stress_wait_loop :: "wait_build \<Rightarrow> wait_obs list \<Rightarrow> wait_call list \<Rightarrow> args_t \<Rightarrow> wait_result" where
  "stress_wait_loop b [] cs a = \<lparr>wr_args = a, wr_calls = cs, wr_left = False\<rparr>"
| "stress_wait_loop b (ob # obs) cs a =
     (let cs1 = cs @ [Waitpid (def_WCONINUED b)] in
      if \<not> run_after_waitpid ob then \<lparr>wr_args = a, wr_calls = cs1, wr_left = True\<rparr>
      else
        let a1 = count_continued b (status_continued ob) a in
        if have_waitid b then
          (let cs2 = cs1 @ [Waitid (def_WCONINUED b)] in
           if \<not> run_after_waitid ob then \<lparr>wr_args = a1, wr_calls = cs2, wr_left = True\<rparr>
           else
             let a2 = count_continued b (status_continued ob) a1 in
             if keep_going (run_at_cond ob) a2 then stress_wait_loop b obs cs2 a2
             else \<lparr>wr_args = a2, wr_calls = cs2, wr_left = True\<rparr>)
        else if keep_going (run_at_cond ob) a1 then stress_wait_loop b obs cs1 a1
        else \<lparr>wr_args = a1, wr_calls = cs1, wr_left = True\<rparr>)"

section \<open>The killer of \<^verbatim>\<open>stress_wait\<close>\<close>

definition ABORT_TIMEOUT :: rat where
  "ABORT_TIMEOUT = 8"

datatype signal = SIGSTOP | SIGCONT | SIGKILL | SIGALRM

text \<open>
  The calls of \<^verbatim>\<open>kill\<close> the killer makes: to the runner (its argument \<open>pid\<close>) and to
  its parent (\<^verbatim>\<open>getppid()\<close>).
\<close>

datatype kill_call = KillRunner signal | KillParent signal

text \<open>
  What one pass of the loop of \<^verbatim>\<open>killer\<close> reads: the shared counter at line 105; the
  clock (\<^verbatim>\<open>time_now\<close> at line 106 when the counter is as last recorded, at line 112
  otherwise); the counter again at line 113, where it is recorded; \<^verbatim>\<open>opt_do_run\<close> and
  the counter in the loop condition of line 115. The parent changes the counter
  meanwhile, so each reading is a value of its own.
\<close>

record kill_obs =
  counter_105 :: uint64_t
  clock :: rat
  counter_113 :: uint64_t
  run_115 :: bool
  counter_115 :: uint64_t

text \<open>
  How the killer stands: the calls of \<^verbatim>\<open>kill\<close> made, its exit status (\<open>None\<close> while it
  is still in the loop), and whether it left the loop by the \<^verbatim>\<open>break\<close> of line 109.
\<close>

record killer_result =
  k_calls :: "kill_call list"
  k_exit :: "int option"
  k_stalled :: bool

text \<open>Lines 117 to 121, after the loop.\<close>

definition killer_exit :: "bool \<Rightarrow> kill_call list \<Rightarrow> killer_result" where
  "killer_exit stalled cs =
     \<lparr>k_calls = cs @ [KillRunner SIGKILL, KillParent SIGALRM],
      k_exit = Some EXIT_SUCCESS, k_stalled = stalled\<rparr>"

text \<open>
  The \<^verbatim>\<open>do ... while\<close> loop of lines 94 to 115, with \<open>mx\<close> the value of
  \<^verbatim>\<open>args->max_ops\<close>, \<open>st\<close> that of \<open>start\<close> and \<open>lc\<close> that of \<open>last_counter\<close>. The
  test of line 106 subtracts and compares \<^verbatim>\<open>double\<close>s. When the observations are used
  up the killer is still in the loop. The debug messages are left out.
\<close>

fun killer_loop ::
  "uint64_t \<Rightarrow> kill_obs list \<Rightarrow> rat \<Rightarrow> uint64_t \<Rightarrow> kill_call list \<Rightarrow> killer_result" where
  "killer_loop mx [] st lc cs = \<lparr>k_calls = cs, k_exit = None, k_stalled = False\<rparr>"
| "killer_loop mx (ob # obs) st lc cs =
     (let cs1 = cs @ [KillRunner SIGSTOP, KillRunner SIGCONT] in
      if lc = counter_105 ob then
        (if ABORT_TIMEOUT < dsub (clock ob) st then killer_exit True cs1
         else if keep_going (run_115 ob) \<lparr>counter = counter_115 ob, max_ops = mx\<rparr>
           then killer_loop mx obs st lc cs1
         else killer_exit False cs1)
      else
        (if keep_going (run_115 ob) \<lparr>counter = counter_115 ob, max_ops = mx\<rparr>
           then killer_loop mx obs (clock ob) (counter_113 ob) cs1
         else killer_exit False cs1))"



section \<open>Budget division\<close>

lemma scast_32_64_unat:
  assumes "0 \<le> sint (n :: int32_t)"
  shows "unat (scast n :: uint64_t) = nat (sint n)"
proof -
  have up: "sint (scast n :: uint64_t) = sint n"
    by (rule sint_up_scast) (simp add: is_up)
  have "sint n < 2 ^ (32 - 1)"
    using sint_lt [of n] by simp
  also have "(2::int) ^ (32 - 1) \<le> 2 ^ 64"
    by (rule power_increasing) simp_all
  finally have lt: "sint n < 2 ^ 64" .
  have "uint (scast n :: uint64_t) = take_bit 64 (sint (scast n :: uint64_t))"
    using uint_sint [of "scast n :: uint64_t"] by simp
  also have "\<dots> = take_bit 64 (sint n)"
    by (simp only: up)
  also have "\<dots> = sint n"
    using assms lt by (rule take_bit_int_eq_self)
  finally show ?thesis
    by (simp add: unat_eq_nat_uint)
qed

lemma scast_32_64_nonzero:
  assumes "0 \<le> sint (n :: int32_t)" and "n \<noteq> 0"
  shows "(scast n :: uint64_t) \<noteq> 0" and "0 < nat (sint n)"
proof -
  have "sint n \<noteq> 0"
    using assms(2) by (metis sint_0 signed_word_eqI)
  then show pos: "0 < nat (sint n)"
    using assms(1) by simp
  have "unat (scast n :: uint64_t) = nat (sint n)"
    using assms(1) by (rule scast_32_64_unat)
  then show "(scast n :: uint64_t) \<noteq> 0"
    using pos by (metis unat_0 less_numeral_extra(3))
qed

text \<open>
  C3. For a worker count in the range \<^verbatim>\<open>check_value\<close> admits (not negative), the
  per-worker budget is the total budget divided by the count with the remainder dropped;
  the division is never undefined, and a count of zero gives the budget zero without
  dividing. Ten operations over three workers give three each.
\<close>

theorem DIV_OPS_BY_PROCS_rounds_down:
  assumes "0 \<le> sint nproc"
  shows "(\<exists>q. DIV_OPS_BY_PROCS opt nproc = Some q \<and>
            unat q = (if nproc = 0 then 0 else unat opt div nat (sint nproc)) \<and>
            unat q * nat (sint nproc) \<le> unat opt) \<and>
         DIV_OPS_BY_PROCS opt 0 = Some 0 \<and>
         DIV_OPS_BY_PROCS 10 3 = Some 3"
proof (intro conjI)
  show "DIV_OPS_BY_PROCS opt 0 = Some 0"
    by (simp add: DIV_OPS_BY_PROCS_def)
  show "DIV_OPS_BY_PROCS 10 3 = Some 3"
    by (simp add: DIV_OPS_BY_PROCS_def c_udiv64_def)
  show "\<exists>q. DIV_OPS_BY_PROCS opt nproc = Some q \<and>
           unat q = (if nproc = 0 then 0 else unat opt div nat (sint nproc)) \<and>
           unat q * nat (sint nproc) \<le> unat opt"
  proof (cases "nproc = 0")
    case True
    then show ?thesis by (simp add: DIV_OPS_BY_PROCS_def)
  next
    case False
    have u: "unat (scast nproc :: uint64_t) = nat (sint nproc)"
      using assms by (rule scast_32_64_unat)
    have nz: "(scast nproc :: uint64_t) \<noteq> 0"
      using assms False by (rule scast_32_64_nonzero)
    show ?thesis
      using False nz u by (simp add: DIV_OPS_BY_PROCS_def c_udiv64_def unat_div)
  qed
qed

theorem DIV_OPS_BY_PROCS_rounds_down_witness:
  "0 \<le> sint (3 :: int32_t) \<and> DIV_OPS_BY_PROCS 10 3 = Some 3 \<and>
   DIV_OPS_BY_PROCS 4000 4 = Some 1000 \<and> DIV_OPS_BY_PROCS 4000 0 = Some 0"
proof -
  have h: "0 \<le> sint (3 :: int32_t)" by simp
  show ?thesis
    using h DIV_OPS_BY_PROCS_rounds_down [OF h, of 10]
    by (simp add: DIV_OPS_BY_PROCS_def c_udiv64_def)
qed

section \<open>The hdd stressor's clean-up\<close>

lemma unlink_before_write_iff:
  "unlink_before_write f \<longleftrightarrow> f AND OPT_FLAGS_NO_CLEAN = 0"
  by (simp add: unlink_before_write_def c_true_def c_not_def)

lemma unlink_after_close_iff:
  "unlink_after_close f \<longleftrightarrow> f = 0"
  by (simp add: unlink_after_close_def c_true_def c_not_def OPT_FLAGS_NO_CLEAN_def)

text \<open>
  C10. The claim wants the file unlinked after \<^verbatim>\<open>close\<close> exactly when the no-clean flag
  is clear, as before the writes. With the start value of \<open>opt_flags\<close> (no-clean
  clear) the check before the writes unlinks and the one after the close does not: the
  check of line 378 holds only when \<open>opt_flags\<close> is zero altogether.
\<close>

theorem unlink_after_close_ignores_no_clean:
  "opt_flags_default AND OPT_FLAGS_NO_CLEAN = 0 \<and>
   unlink_before_write opt_flags_default \<and>
   \<not> unlink_after_close opt_flags_default \<and>
   stress_io_pass opt_flags_default True [True] = [Mkstemp, Unlink, Write, Close] \<and>
   (unlink_after_close f \<longleftrightarrow> f = 0)"
  by (simp add: unlink_after_close_iff unlink_before_write_iff stress_io_pass_def
      opt_flags_default_def PR_ERR_def PR_INF_def OPT_FLAGS_NO_CLEAN_def)

section \<open>Runs of the orchestrator on given inputs\<close>

text \<open>
  C1. Two cpu workers are asked for and the second \<^verbatim>\<open>fork\<close> fails: the orchestrator
  reports the failure, sends \<^verbatim>\<open>SIGALRM\<close> to the one worker it has started, forks no
  more and removes the shared-memory name, but then leaves through the label \<^verbatim>\<open>out\<close>
  with \<^verbatim>\<open>EXIT_SUCCESS\<close>, not with the failure code.
\<close>

theorem fork_failure_exits_with_success:
  "(case main (default_config\<lparr>num_procs := (\<lambda>i. 0)(STRESS_CPU := 2)\<rparr>)
           (good_env\<lparr>fork_result := (\<lambda>k. if k = 1 then ForkFailed else Forked 100)\<rparr>) [] of
      Exited c s \<Rightarrow>
        c = 0 \<and> EXIT_FAILURE = 1 \<and> forks s = 2 \<and>
        trace s =
          [Print ''dispatching hogs'', ShmUnlink, ShmOpen, Ftruncate 64, Mmap 64, CloseFd,
           Fork, Fork, Print ''Cannot fork'', Kill 100, ShmUnlink]
    | Waiting n s \<Rightarrow> False)"
  by code_simp

text \<open>
  C2. With two io workers and one vm worker (\<open>max = 2\<close>, a region of 8 counters) the
  second io worker and the vm worker are both handed the counter at offset 2. With five
  cpu workers (\<open>max = 5\<close>, a region of 20 counters) the fifth is handed the counter at
  offset 21, past the end of the region. Each triple is a child's category, its index
  within the category and the offset of its counter.
\<close>

theorem counter_offsets_collide_and_overrun:
  "(case main (default_config\<lparr>num_procs := (\<lambda>i. 0)(STRESS_IOSYNC := 2, STRESS_VM := 1)\<rparr>)
           good_env [100, 101, 102] of
      Exited c s \<Rightarrow>
        map (\<lambda>c. (child_category c, child_index c, child_counter c)) (children s) =
          [(0, 0, Some 0), (2, 0, Some 2), (0, 1, Some 2)] \<and>
        \<not> distinct (map child_counter (children s))
    | Waiting n s \<Rightarrow> False) \<and>
   shm_counters (default_config\<lparr>num_procs := (\<lambda>i. 0)(STRESS_IOSYNC := 2, STRESS_VM := 1)\<rparr>) = 8 \<and>
   (case main (default_config\<lparr>num_procs := (\<lambda>i. 0)(STRESS_CPU := 5)\<rparr>)
           good_env [100, 101, 102, 103, 104] of
      Exited c s \<Rightarrow>
        map (\<lambda>c. (child_category c, child_index c, child_counter c)) (children s) =
          [(1, 0, Some 1), (1, 1, Some 6), (1, 2, Some 11), (1, 3, Some 16), (1, 4, Some 21)] \<and>
        \<not> list_all (\<lambda>c. case child_counter c of None \<Rightarrow> True | Some k \<Rightarrow> k < 20) (children s)
    | Waiting n s \<Rightarrow> False) \<and>
   shm_counters (default_config\<lparr>num_procs := (\<lambda>i. 0)(STRESS_CPU := 5)\<rparr>) = 20"
  by code_simp

section \<open>The worker loop of \<^verbatim>\<open>stress_null\<close>\<close>

lemma null_loop_writes_ge: "k \<le> nr_writes (null_loop obs k a)"
proof (induction obs arbitrary: k a)
  case Nil
  then show ?case by simp
next
  case (Cons ob obs)
  have "Suc k \<le> nr_writes (null_loop obs (Suc k) b)" for b
    by (rule Cons.IH)
  then have "k \<le> nr_writes (null_loop obs (Suc k) b)" for b
    using Suc_leD by blast
  then show ?case
    by (simp add: null_done_def null_failed_def Let_def)
qed

lemma null_loop_fd: "nr_fd_open (null_loop obs k a) \<longleftrightarrow> nr_status (null_loop obs k a) = None"
  by (induction obs arbitrary: k a) (simp_all add: null_done_def null_failed_def Let_def)

lemma null_loop_counter:
  "counter (nr_args (null_loop obs k a)) =
     counter a + of_nat (length (filter (\<lambda>ob. 0 < write_ret ob)
                                  (take (nr_writes (null_loop obs k a) - k) obs)))"
proof (induction obs arbitrary: k a)
  case Nil
  then show ?case by simp
next
  case (Cons ob obs)
  have step: "nr_writes (null_loop obs (Suc k) b) - k = Suc (nr_writes (null_loop obs (Suc k) b) - Suc k)" for b
    using null_loop_writes_ge [of "Suc k" obs b] by simp
  show ?case
  proof (cases "0 < write_ret ob")
    case True
    then show ?thesis
      using Cons.IH [of "Suc k" "inc_counter a"] step [of "inc_counter a"]
      by (simp add: null_done_def Let_def inc_counter_def)
  next
    case False
    then show ?thesis
      using Cons.IH [of "Suc k" a] step [of a]
      by (simp add: null_done_def null_failed_def)
  qed
qed

text \<open>
  C9. In the loop of \<^verbatim>\<open>stress_null\<close>: a write that fails with \<^verbatim>\<open>EAGAIN\<close> or
  \<^verbatim>\<open>EINTR\<close> leads back to the loop condition with the counter as it was, and the next
  pass writes again; a write that fails with any other error (a failed write always
  sets \<^verbatim>\<open>errno\<close> to a non-zero code) closes the descriptor and returns
  \<^verbatim>\<open>EXIT_FAILURE\<close>, the counter untouched; a successful write advances the counter by
  one. Over a whole run the counter has advanced by the number of successful writes, and
  the descriptor is open only while the worker is still in the loop.
\<close>

theorem stress_null_steps:
  "(write_ret t \<le> 0 \<and> (write_errno t = EAGAIN \<or> write_errno t = EINTR) \<longrightarrow>
      null_loop (t # obs) k a =
        (if keep_going (do_run t) a then null_loop obs (Suc k) a else null_done (Suc k) a)) \<and>
   (write_ret f \<le> 0 \<and> write_errno f \<noteq> EAGAIN \<and> write_errno f \<noteq> EINTR \<and> write_errno f \<noteq> 0 \<longrightarrow>
      null_loop (f # obs) k a =
        \<lparr>nr_status = Some EXIT_FAILURE, nr_args = a, nr_fd_open = False, nr_writes = Suc k\<rparr>) \<and>
   (0 < write_ret g \<longrightarrow>
      null_loop (g # obs) k a =
        (if keep_going (do_run g) (inc_counter a) then null_loop obs (Suc k) (inc_counter a)
         else null_done (Suc k) (inc_counter a)) \<and>
      counter (inc_counter a) = counter a + 1) \<and>
   counter (nr_args (stress_null True obs a)) =
     counter a + of_nat (length (filter (\<lambda>ob. 0 < write_ret ob)
                                  (take (nr_writes (stress_null True obs a)) obs))) \<and>
   (nr_fd_open (stress_null ok obs a) \<longleftrightarrow> ok \<and> nr_status (stress_null ok obs a) = None)"
proof (intro conjI impI)
  show "counter (nr_args (stress_null True obs a)) =
     counter a + of_nat (length (filter (\<lambda>ob. 0 < write_ret ob)
                                  (take (nr_writes (stress_null True obs a)) obs)))"
    using null_loop_counter [of obs 0 a] by (simp add: stress_null_def)
  show "nr_fd_open (stress_null ok obs a) \<longleftrightarrow> ok \<and> nr_status (stress_null ok obs a) = None"
    using null_loop_fd [of obs 0 a] by (simp add: stress_null_def)
qed (auto simp: null_failed_def inc_counter_def)

theorem stress_null_steps_witness:
  "write_ret \<lparr>write_ret = - 1, write_errno = EINTR, do_run = True\<rparr> \<le> 0 \<and>
   write_errno \<lparr>write_ret = - 1, write_errno = EINTR, do_run = True\<rparr> = EINTR \<and>
   write_ret \<lparr>write_ret = - 1, write_errno = 9, do_run = True\<rparr> \<le> 0 \<and>
   write_errno \<lparr>write_ret = - 1, write_errno = 9, do_run = True\<rparr> \<noteq> EAGAIN \<and>
   write_errno \<lparr>write_ret = - 1, write_errno = 9, do_run = True\<rparr> \<noteq> EINTR \<and>
   write_errno \<lparr>write_ret = - 1, write_errno = 9, do_run = True\<rparr> \<noteq> 0 \<and>
   0 < write_ret \<lparr>write_ret = 4096, write_errno = 0, do_run = True\<rparr> \<and>
   stress_null True
     [\<lparr>write_ret = 4096, write_errno = 0, do_run = True\<rparr>,
      \<lparr>write_ret = - 1, write_errno = EINTR, do_run = True\<rparr>,
      \<lparr>write_ret = 4096, write_errno = 0, do_run = True\<rparr>,
      \<lparr>write_ret = - 1, write_errno = 9, do_run = True\<rparr>]
     \<lparr>counter = 0, max_ops = 0\<rparr> =
     \<lparr>nr_status = Some EXIT_FAILURE, nr_args = \<lparr>counter = 2, max_ops = 0\<rparr>,
      nr_fd_open = False, nr_writes = 4\<rparr>"
  using stress_null_steps [of "\<lparr>write_ret = - 1, write_errno = EINTR, do_run = True\<rparr>"
      "[]" 0 "\<lparr>counter = 0, max_ops = 0\<rparr>"
      "\<lparr>write_ret = - 1, write_errno = 9, do_run = True\<rparr>"
      "\<lparr>write_ret = 4096, write_errno = 0, do_run = True\<rparr>" True]
  by (simp add: stress_null_def null_failed_def null_done_def inc_counter_def keep_going_def
      EINTR_def EAGAIN_def EXIT_FAILURE_def)

section \<open>The monitoring loop of \<^verbatim>\<open>stress_wait\<close>\<close>

lemma stress_wait_loop_ignores_info:
  "stress_wait_loop b (map (\<lambda>ob. ob\<lparr>info_continued := f ob\<rparr>) obs) cs a = stress_wait_loop b obs cs a"
  by (induction obs arbitrary: cs a) (simp_all add: Let_def)

text \<open>
  The claim C8 fails: in one pass in which the \<^verbatim>\<open>siginfo_t\<close> of \<^verbatim>\<open>waitid\<close> reports no
  continued child the counter still goes from 0 to 2, both in the build in which the
  misspelt macros are undefined and in one that defines them (the second test reads the
  status of \<^verbatim>\<open>waitpid\<close> again).
\<close>

theorem second_count_without_continuation:
  "counter (wr_args (stress_wait_loop
      \<lparr>def_WCONINUED = False, def_WIFCONINUED = False, have_waitid = True\<rparr>
      [\<lparr>status_continued = False, run_after_waitpid = True, info_continued = False,
        run_after_waitid = True, run_at_cond = False\<rparr>] []
      \<lparr>counter = 0, max_ops = 0\<rparr>)) = 2 \<and>
   counter (wr_args (stress_wait_loop
      \<lparr>def_WCONINUED = True, def_WIFCONINUED = True, have_waitid = True\<rparr>
      [\<lparr>status_continued = True, run_after_waitpid = True, info_continued = False,
        run_after_waitid = True, run_at_cond = False\<rparr>] []
      \<lparr>counter = 0, max_ops = 0\<rparr>)) = 2"
  by (simp add: count_continued_def inc_counter_def keep_going_def)

text \<open>
  C8, amended. The outcome of the monitoring loop does not depend on what \<^verbatim>\<open>waitid\<close>
  reports: replacing the reported \<^verbatim>\<open>siginfo_t\<close> contents by any others changes
  nothing. Where the \<^verbatim>\<open>waitid\<close> block is compiled in, a pass that finds the stop flag
  clear after \<^verbatim>\<open>waitpid\<close> calls \<^verbatim>\<open>waitid\<close> once; if the stop flag is set when it
  returns the loop is left after the first count alone; otherwise the second count
  repeats the first, on the same status.
\<close>

theorem second_count_ignores_siginfo:
  "stress_wait_loop b (map (\<lambda>ob. ob\<lparr>info_continued := f ob\<rparr>) obs) cs a =
     stress_wait_loop b obs cs a \<and>
   (have_waitid b \<and> run_after_waitpid ob \<longrightarrow>
      wr_calls (stress_wait_loop b [ob] cs a) =
        cs @ [Waitpid (def_WCONINUED b), Waitid (def_WCONINUED b)]) \<and>
   (have_waitid b \<and> run_after_waitpid ob \<and> \<not> run_after_waitid ob \<longrightarrow>
      stress_wait_loop b (ob # obs) cs a =
        \<lparr>wr_args = count_continued b (status_continued ob) a,
         wr_calls = cs @ [Waitpid (def_WCONINUED b), Waitid (def_WCONINUED b)],
         wr_left = True\<rparr>) \<and>
   (have_waitid b \<and> run_after_waitpid ob \<and> run_after_waitid ob \<longrightarrow>
      wr_args (stress_wait_loop b [ob] cs a) =
        count_continued b (status_continued ob) (count_continued b (status_continued ob) a))"
  by (simp add: stress_wait_loop_ignores_info Let_def)

theorem second_count_ignores_siginfo_witness:
  "have_waitid \<lparr>def_WCONINUED = False, def_WIFCONINUED = False, have_waitid = True\<rparr> \<and>
   run_after_waitpid \<lparr>status_continued = False, run_after_waitpid = True,
      info_continued = False, run_after_waitid = True, run_at_cond = True\<rparr> \<and>
   run_after_waitid \<lparr>status_continued = False, run_after_waitpid = True,
      info_continued = False, run_after_waitid = True, run_at_cond = True\<rparr> \<and>
   stress_wait_loop \<lparr>def_WCONINUED = False, def_WIFCONINUED = False, have_waitid = True\<rparr>
     [\<lparr>status_continued = False, run_after_waitpid = True, info_continued = False,
       run_after_waitid = True, run_at_cond = True\<rparr>] []
     \<lparr>counter = 0, max_ops = 0\<rparr> =
     \<lparr>wr_args = \<lparr>counter = 2, max_ops = 0\<rparr>, wr_calls = [Waitpid False, Waitid False],
      wr_left = False\<rparr> \<and>
   \<not> run_after_waitid \<lparr>status_continued = True, run_after_waitpid = True,
      info_continued = True, run_after_waitid = False, run_at_cond = True\<rparr> \<and>
   stress_wait_loop \<lparr>def_WCONINUED = False, def_WIFCONINUED = False, have_waitid = True\<rparr>
     [\<lparr>status_continued = True, run_after_waitpid = True, info_continued = True,
       run_after_waitid = False, run_at_cond = True\<rparr>] []
     \<lparr>counter = 0, max_ops = 0\<rparr> =
     \<lparr>wr_args = \<lparr>counter = 1, max_ops = 0\<rparr>, wr_calls = [Waitpid False, Waitid False],
      wr_left = True\<rparr>"
  using second_count_ignores_siginfo
    [of "\<lparr>def_WCONINUED = False, def_WIFCONINUED = False, have_waitid = True\<rparr>"
        "\<lambda>ob. True" "[]" "[]" "\<lparr>counter = 0, max_ops = 0\<rparr>"
        "\<lparr>status_continued = False, run_after_waitpid = True,
          info_continued = False, run_after_waitid = True, run_at_cond = True\<rparr>"]
  by (simp add: count_continued_def inc_counter_def keep_going_def)

section \<open>The events of a run and the shared-memory name\<close>

lemma shm_linked_append: "shm_linked b (xs @ ys) = shm_linked (shm_linked b xs) ys"
  by (induction b xs rule: shm_linked.induct) simp_all

lemma shm_linked_no_shm: "no_shm es \<Longrightarrow> shm_linked b es = b"
  by (induction b es rule: shm_linked.induct) (simp_all add: no_shm_def)

lemma no_shm_append: "no_shm (xs @ ys) \<longleftrightarrow> no_shm xs \<and> no_shm ys"
  by (auto simp: no_shm_def)

lemma no_shm_kills: "no_shm (map (\<lambda>(i, j). Kill (f i j)) xs)"
  by (auto simp: no_shm_def)

lemma launch_one_skip:
  "\<not> started_procs s i < num_procs cfg i \<Longrightarrow> launch_one cfg e mx n i s = Inr s"
  by (simp add: launch_one_def)

lemma launch_one_failed:
  "started_procs s i < num_procs cfg i \<Longrightarrow> fork_result e (forks s) = ForkFailed \<Longrightarrow>
   launch_one cfg e mx n i s =
     Inl (send_alarm (pr_err cfg ''Cannot fork'' (log_event Fork (s\<lparr>forks := Suc (forks s)\<rparr>))))"
  by (simp add: launch_one_def)

lemma launch_one_forked:
  "started_procs s i < num_procs cfg i \<Longrightarrow> fork_result e (forks s) = Forked p \<Longrightarrow>
   launch_one cfg e mx n i s =
     Inr (s\<lparr>forks := Suc (forks s),
            children := children s @ [the_child cfg mx n i (started_procs s i)],
            procs := (procs s)(i := (procs s i)(started_procs s i :=
               (procs s i (started_procs s i))\<lparr>pid := p,
                  start := dadd (time_now e (clock_reads s))
                    (ddiv (double_of_int (opt_backoff cfg * int n)) 1000000)\<rparr>)),
            clock_reads := Suc (clock_reads s),
            started_procs := (started_procs s)(i := Suc (started_procs s i)),
            trace := trace s @ [Fork]\<rparr>)"
  by (simp add: launch_one_def log_event_def Let_def)

lemma launch_one_trace:
  "\<exists>es. trace (case_sum id id (launch_one cfg e mx n i s)) = trace s @ es \<and> no_shm es"
proof (cases "started_procs s i < num_procs cfg i")
  case False
  then show ?thesis by (simp add: launch_one_skip no_shm_def)
next
  case True
  show ?thesis
  proof (cases "fork_result e (forks s)")
    case ForkFailed
    have "no_shm ([Fork] @ (if opt_flags cfg AND PR_ERR \<noteq> 0 then [Print ''Cannot fork''] else []) @
            map (\<lambda>(i, j). Kill (pid (procs s i j))) (tracked s))"
      unfolding no_shm_append by (simp add: no_shm_kills) (simp add: no_shm_def)
    with True ForkFailed show ?thesis
      by (auto simp: launch_one_failed send_alarm_def pr_err_def log_event_def tracked_def)
  next
    case (Forked p)
    with True show ?thesis
      by (simp add: launch_one_forked no_shm_def)
  qed
qed

lemma launch_round_trace:
  "\<exists>es. trace (case_sum id id (launch_round cfg e mx n is s)) = trace s @ es \<and> no_shm es"
proof (induction "is" arbitrary: s)
  case Nil
  then show ?case by (simp add: no_shm_def)
next
  case (Cons i "is")
  obtain es where es: "trace (case_sum id id (launch_one cfg e mx n i s)) = trace s @ es" "no_shm es"
    using launch_one_trace by blast
  show ?case
  proof (cases "launch_one cfg e mx n i s")
    case (Inl a)
    with es show ?thesis by auto
  next
    case (Inr s1)
    obtain es' where "trace (case_sum id id (launch_round cfg e mx n is s1)) = trace s1 @ es'" "no_shm es'"
      using Cons.IH by blast
    with Inr es show ?thesis
      by (auto simp: no_shm_append intro!: exI [of _ "es @ es'"])
  qed
qed

lemma launch_rounds_trace:
  "\<exists>es. trace (case_sum id id (launch_rounds cfg e mx ns s)) = trace s @ es \<and> no_shm es"
proof (induction ns arbitrary: s)
  case Nil
  then show ?case by (simp add: no_shm_def)
next
  case (Cons n ns)
  obtain es where es: "trace (case_sum id id (launch_round cfg e mx n [0..<STRESS_MAX] s)) = trace s @ es" "no_shm es"
    using launch_round_trace by blast
  show ?case
  proof (cases "launch_round cfg e mx n [0..<STRESS_MAX] s")
    case (Inl a)
    with es show ?thesis by auto
  next
    case (Inr s1)
    obtain es' where "trace (case_sum id id (launch_rounds cfg e mx ns s1)) = trace s1 @ es'" "no_shm es'"
      using Cons.IH by blast
    with Inr es show ?thesis
      by (auto simp: no_shm_append intro!: exI [of _ "es @ es'"])
  qed
qed

lemma proc_finished_trace: "trace (proc_finished e p s) = trace s"
  by (simp add: proc_finished_def Let_def split: option.splits prod.splits)

lemma reap_trace:
  "\<exists>es. trace (case_sum snd id (reap e ws n s)) = trace s @ es \<and> no_shm es"
proof (induction e ws n s rule: reap.induct)
  case (1 e ws s)
  then show ?case by (simp add: no_shm_def)
next
  case (2 e n s)
  then show ?case by (simp add: no_shm_def)
next
  case (3 e w ws n s)
  show ?case
  proof (cases "0 < w")
    case True
    then obtain es where "trace (case_sum snd id (reap e ws n (proc_finished e w (log_event Wait s)))) =
        trace (proc_finished e w (log_event Wait s)) @ es" "no_shm es"
      using 3(1) by blast
    with True show ?thesis
      by (auto simp: proc_finished_trace log_event_def no_shm_def intro!: exI [of _ "Wait # es"])
  next
    case False
    show ?thesis
    proof (cases "w = - 1")
      case True
      let ?s1 = "log_event (Print ''Break'') (send_alarm (log_event Wait s))"
      obtain es where es: "trace (case_sum snd id (reap e ws (Suc n) ?s1)) = trace ?s1 @ es" "no_shm es"
        using 3(2) [OF False True] by blast
      have "\<exists>es1. trace ?s1 = trace s @ es1 \<and> no_shm es1"
        by (auto simp: log_event_def send_alarm_def no_shm_def)
      then obtain es1 where "trace ?s1 = trace s @ es1" "no_shm es1" by blast
      with es False True show ?thesis
        by (auto simp: no_shm_append intro!: exI [of _ "es1 @ es"])
    next
      case F2: False
      obtain es where "trace (case_sum snd id (reap e ws (Suc n) (log_event Wait s))) =
         trace (log_event Wait s) @ es" "no_shm es"
        using 3(3) [OF False F2] by blast
      with False F2 show ?thesis
        by (auto simp: log_event_def no_shm_def intro!: exI [of _ "Wait # es"])
    qed
  qed
qed


lemma no_shm_take: "no_shm es \<Longrightarrow> no_shm (take k es)"
  by (auto simp: no_shm_def dest: in_set_takeD)

lemma shm_setup_ok:
  assumes "shm_open_ok e" and "ftruncate_ok e" and "mmap_ok e"
  shows "shm_setup cfg e s =
           Inr (s\<lparr>trace := trace s @
                  [ShmUnlink, ShmOpen, Ftruncate (shm_len cfg), Mmap (shm_len cfg), CloseFd]\<rparr>)"
  using assms by (simp add: shm_setup_def log_event_def Let_def)

lemma main_trace:
  assumes "list_all (calloc_ok e) [0..<STRESS_MAX]" and "total_procs cfg \<noteq> 0"
      and "shm_open_ok e" and "ftruncate_ok e" and "mmap_ok e"
  shows "\<exists>mid. no_shm mid \<and>
           trace (final_state (main cfg e ws)) =
             (trace (pr_inf cfg ''dispatching hogs'' init_state) @ [ShmUnlink]) @
             [ShmOpen, Ftruncate (shm_len cfg), Mmap (shm_len cfg), CloseFd] @ mid @
             (case main cfg e ws of Exited c s \<Rightarrow> [ShmUnlink] | Waiting n s \<Rightarrow> []) \<and>
           (\<forall>c s. main cfg e ws = Exited c s \<longrightarrow> c = EXIT_SUCCESS)"
proof -
  let ?s0 = "pr_inf cfg ''dispatching hogs'' init_state"
  let ?four = "[ShmOpen, Ftruncate (shm_len cfg), Mmap (shm_len cfg), CloseFd]"
  let ?s1 = "?s0\<lparr>trace := trace ?s0 @ ShmUnlink # ?four\<rparr>"
  let ?s2 = "?s1\<lparr>time_start := time_now e (clock_reads ?s1), clock_reads := Suc (clock_reads ?s1)\<rparr>"
  have su: "shm_setup cfg e ?s0 = Inr ?s1"
    using assms(3-5) by (simp add: shm_setup_ok)
  have m: "main cfg e ws =
      (case launch cfg e ?s2 of
         Inl a \<Rightarrow> finish_out a
       | Inr s' \<Rightarrow>
           (case reap e ws (total_procs cfg) s' of
              Inl (n, b) \<Rightarrow> Waiting n b
            | Inr s'' \<Rightarrow>
                finish_out (pr_inf cfg ''successful run completed''
                  (s''\<lparr>clock_reads := Suc (clock_reads s'')\<rparr>))))"
    using assms(1,2) unfolding main_def su by simp
  obtain es1 where es1: "trace (case_sum id id (launch cfg e ?s2)) = trace ?s2 @ es1" "no_shm es1"
    unfolding launch_def using launch_rounds_trace by blast
  have t2: "trace ?s2 = (trace ?s0 @ [ShmUnlink]) @ ?four"
    by simp
  show ?thesis
  proof (cases "launch cfg e ?s2")
    case (Inl a)
    then have "trace a = trace ?s2 @ es1"
      using es1(1) by simp
    then show ?thesis
      using es1(2) Inl unfolding m t2
      by (auto simp: finish_out_def log_event_def intro!: exI [of _ es1])
  next
    case (Inr s')
    then have ts': "trace s' = trace ?s2 @ es1"
      using es1(1) by simp
    obtain es2 where es2: "trace (case_sum snd id (reap e ws (total_procs cfg) s')) = trace s' @ es2"
        "no_shm es2"
      using reap_trace by blast
    show ?thesis
    proof (cases "reap e ws (total_procs cfg) s'")
      case (Inl nb)
      obtain n b where nb: "nb = (n, b)" by (cases nb)
      have "trace b = trace s' @ es2"
        using es2(1) Inl nb by simp
      then show ?thesis
        using es1(2) es2(2) Inl nb Inr ts' unfolding m t2
        by (auto simp: no_shm_append intro!: exI [of _ "es1 @ es2"])
    next
      case (Inr s'')
      let ?p = "if opt_flags cfg AND PR_INF \<noteq> 0 then [Print ''successful run completed''] else []"
      have "trace s'' = trace s' @ es2"
        using es2(1) Inr by simp
      moreover have "no_shm ?p"
        by (simp add: no_shm_def)
      ultimately show ?thesis
        using es1(2) es2(2) Inr \<open>launch cfg e ?s2 = Inr s'\<close> ts' unfolding m t2
        by (auto simp: no_shm_append finish_out_def log_event_def pr_inf_def
            intro!: exI [of _ "es1 @ es2 @ ?p"])
    qed
  qed
qed

text \<open>
  The claim C5 fails: in a run with one cpu worker that is forked, reaped and reported,
  the only \<^verbatim>\<open>shm_unlink\<close> after the mapping is the last event of the run. The name
  exists after the mapping and the \<^verbatim>\<open>close\<close> (the first 6 events), when the worker is
  forked, while the orchestrator waits and when it reports; it is gone only at the exit.
\<close>

theorem shm_name_still_linked_after_mapping:
  "(case main (default_config\<lparr>num_procs := (\<lambda>i. 0)(STRESS_CPU := 1)\<rparr>) good_env [100] of
      Exited c s \<Rightarrow>
        trace s =
          [Print ''dispatching hogs'', ShmUnlink, ShmOpen, Ftruncate 32, Mmap 32, CloseFd,
           Fork, Wait, Print ''successful run completed'', ShmUnlink] \<and>
        shm_linked False (take 6 (trace s)) \<and>
        shm_linked False (take 7 (trace s)) \<and>
        shm_linked False (take 8 (trace s)) \<and>
        shm_linked False (take 9 (trace s)) \<and>
        \<not> shm_linked False (trace s)
    | Waiting n s \<Rightarrow> False)"
  by code_simp

text \<open>
  C5, amended. On every run that gets as far as mapping the region, the name is created
  by \<^verbatim>\<open>shm_open\<close> and not removed after the mapping: between the \<^verbatim>\<open>close\<close> that follows
  \<^verbatim>\<open>mmap\<close> and the end of the run there is no \<^verbatim>\<open>shm_unlink\<close>, so the name exists at
  every moment of launching and reaping (whether or not a stale name existed before).
  When the run exits, it exits with \<^verbatim>\<open>EXIT_SUCCESS\<close> through the label \<^verbatim>\<open>out\<close>, with
  one \<^verbatim>\<open>shm_unlink\<close> as its last event, after which the name is gone; one more
  removal would change nothing.
\<close>

theorem shm_name_kept_until_exit:
  assumes "list_all (calloc_ok e) [0..<STRESS_MAX]" and "total_procs cfg \<noteq> 0"
      and "shm_open_ok e" and "ftruncate_ok e" and "mmap_ok e"
  shows "\<exists>pre mid.
           trace (final_state (main cfg e ws)) =
             pre @ [ShmOpen, Ftruncate (shm_len cfg), Mmap (shm_len cfg), CloseFd] @ mid @
             (case main cfg e ws of Exited c s \<Rightarrow> [ShmUnlink] | Waiting n s \<Rightarrow> []) \<and>
           ShmUnlink \<notin> set mid \<and>
           (\<forall>k \<le> length mid.
              shm_linked (shm_stale e)
                (pre @ [ShmOpen, Ftruncate (shm_len cfg), Mmap (shm_len cfg), CloseFd] @ take k mid)) \<and>
           (\<forall>c s. main cfg e ws = Exited c s \<longrightarrow>
              c = EXIT_SUCCESS \<and> \<not> shm_linked (shm_stale e) (trace s) \<and>
              shm_linked (shm_stale e) (trace s @ [ShmUnlink]) = shm_linked (shm_stale e) (trace s))"
proof -
  let ?pre = "trace (pr_inf cfg ''dispatching hogs'' init_state) @ [ShmUnlink]"
  let ?four = "[ShmOpen, Ftruncate (shm_len cfg), Mmap (shm_len cfg), CloseFd]"
  obtain mid where mid: "no_shm mid"
      "trace (final_state (main cfg e ws)) = ?pre @ ?four @ mid @
         (case main cfg e ws of Exited c s \<Rightarrow> [ShmUnlink] | Waiting n s \<Rightarrow> [])"
      "\<forall>c s. main cfg e ws = Exited c s \<longrightarrow> c = EXIT_SUCCESS"
    using main_trace [OF assms] by blast
  have linked: "shm_linked b (?pre @ ?four @ es) = True" if "no_shm es" for b es
    using that by (simp add: shm_linked_append shm_linked_no_shm)
  have during: "\<forall>k \<le> length mid. shm_linked (shm_stale e) (?pre @ ?four @ take k mid)"
    using linked [OF no_shm_take [OF mid(1)]] by simp
  have after: "\<not> shm_linked b (?pre @ ?four @ mid @ [ShmUnlink])" for b
    by (simp add: shm_linked_append)
  have fin: "c = EXIT_SUCCESS \<and> \<not> shm_linked (shm_stale e) (trace s) \<and>
             shm_linked (shm_stale e) (trace s @ [ShmUnlink]) = shm_linked (shm_stale e) (trace s)"
    if "main cfg e ws = Exited c s" for c s
  proof -
    have "trace s = ?pre @ ?four @ mid @ [ShmUnlink]"
      using mid(2) that by simp
    then show ?thesis
      using mid(3) that after [of "shm_stale e"] by (simp add: shm_linked_append)
  qed
  show ?thesis
    apply (rule exI [of _ ?pre])
    apply (rule exI [of _ mid])
    using mid(1,2) during fin by (simp add: no_shm_def)
qed

theorem shm_name_kept_until_exit_witness:
  "list_all (calloc_ok good_env) [0..<STRESS_MAX] \<and>
   total_procs (default_config\<lparr>num_procs := (\<lambda>i. 0)(STRESS_CPU := 1)\<rparr>) \<noteq> 0 \<and>
   shm_open_ok good_env \<and> ftruncate_ok good_env \<and> mmap_ok good_env \<and>
   (\<exists>c s. main (default_config\<lparr>num_procs := (\<lambda>i. 0)(STRESS_CPU := 1)\<rparr>) good_env [100] =
            Exited c s \<and>
          c = EXIT_SUCCESS \<and> \<not> shm_linked (shm_stale good_env) (trace s))"
proof -
  let ?cfg = "default_config\<lparr>num_procs := (\<lambda>i. 0)(STRESS_CPU := 1)\<rparr>"
  have h1: "list_all (calloc_ok good_env) [0..<STRESS_MAX]" by code_simp
  have h2: "total_procs ?cfg \<noteq> 0" by code_simp
  have h3: "shm_open_ok good_env" and h4: "ftruncate_ok good_env" and h5: "mmap_ok good_env"
    by (simp_all add: good_env_def)
  have ex: "case main ?cfg good_env [100] of Exited c s \<Rightarrow> True | Waiting n s \<Rightarrow> False"
    by code_simp
  then obtain c s where m: "main ?cfg good_env [100] = Exited c s"
    by (cases "main ?cfg good_env [100]") simp_all
  have "c = EXIT_SUCCESS \<and> \<not> shm_linked (shm_stale good_env) (trace s)"
    using shm_name_kept_until_exit [OF h1 h2 h3 h4 h5, of "[100]"] m by blast
  then show ?thesis
    using h1 h2 h3 h4 h5 m by blast
qed

section \<open>The reap loop\<close>

lemma reap_leaves:
  "n \<le> length (filter (\<lambda>w. 0 < w) ws) \<Longrightarrow> \<exists>s'. reap e ws n s = Inr s'"
  by (induction e ws n s rule: reap.induct) auto

lemma reap_all_fail:
  "list_all (\<lambda>w. w = - 1) ws \<Longrightarrow> \<exists>b. reap e ws (Suc n) s = Inl (Suc n, b)"
  by (induction ws arbitrary: s) auto

lemma main_exits:
  assumes "list_all (calloc_ok e) [0..<STRESS_MAX]" and "total_procs cfg \<noteq> 0"
      and "shm_open_ok e" and "ftruncate_ok e" and "mmap_ok e"
      and "total_procs cfg \<le> length (filter (\<lambda>w. 0 < w) ws)"
  shows "\<exists>s'. main cfg e ws = Exited EXIT_SUCCESS s'"
proof -
  let ?s0 = "pr_inf cfg ''dispatching hogs'' init_state"
  obtain s where su: "shm_setup cfg e ?s0 = Inr s"
    using assms(3-5) by (simp add: shm_setup_ok)
  let ?s2 = "s\<lparr>time_start := time_now e (clock_reads s), clock_reads := Suc (clock_reads s)\<rparr>"
  show ?thesis
  proof (cases "launch cfg e ?s2")
    case (Inl a)
    then show ?thesis
      using assms(1,2) su by (simp add: main_def finish_out_def)
  next
    case (Inr s')
    obtain s'' where "reap e ws (total_procs cfg) s' = Inr s''"
      using reap_leaves [OF assms(6)] by blast
    then show ?thesis
      using assms(1,2) su Inr by (simp add: main_def finish_out_def)
  qed
qed

text \<open>
  C4. When \<^verbatim>\<open>wait\<close> returns -1 in the reap loop, the orchestrator sends \<^verbatim>\<open>SIGALRM\<close> to
  every worker in its table and prints Break, the outstanding count unchanged. After a
  failure for a reason other than "no more children" the workers are still there;
  signalled, they end, and later calls of \<^verbatim>\<open>wait\<close> reap them: whenever the later calls
  reap as many workers as are outstanding, the loop is left, the signals and the message
  behind it, and a run that has mapped the region and reaps as many workers as it was
  asked for exits with \<^verbatim>\<open>EXIT_SUCCESS\<close>. When no child is left, every later call fails
  as well, and the loop is not left: the orchestrator is still in it with the same
  count.
\<close>

theorem wait_failure_signals_all_and_run_ends:
  "reap e (- 1 # ws) (Suc n) s =
     reap e ws (Suc n)
       (s\<lparr>trace := trace s @ [Wait] @ map (\<lambda>(i, j). Kill (pid (procs s i j))) (tracked s) @
                    [Print ''Break'']\<rparr>) \<and>
   (Suc n \<le> length (filter (\<lambda>w. 0 < w) ws) \<longrightarrow>
      (\<exists>s' es. reap e (- 1 # ws) (Suc n) s = Inr s' \<and>
         trace s' = trace s @ [Wait] @ map (\<lambda>(i, j). Kill (pid (procs s i j))) (tracked s) @
                    [Print ''Break''] @ es)) \<and>
   (list_all (calloc_ok e) [0..<STRESS_MAX] \<and> total_procs cfg \<noteq> 0 \<and> shm_open_ok e \<and>
    ftruncate_ok e \<and> mmap_ok e \<and> total_procs cfg \<le> length (filter (\<lambda>w. 0 < w) ws') \<longrightarrow>
      (\<exists>s'. main cfg e ws' = Exited EXIT_SUCCESS s')) \<and>
   (list_all (\<lambda>w. w = - 1) ws \<longrightarrow> (\<exists>b. reap e (- 1 # ws) (Suc n) s = Inl (Suc n, b)))"
proof (intro conjI impI)
  let ?s1 = "s\<lparr>trace := trace s @ [Wait] @ map (\<lambda>(i, j). Kill (pid (procs s i j))) (tracked s) @
                    [Print ''Break'']\<rparr>"
  show step: "reap e (- 1 # ws) (Suc n) s = reap e ws (Suc n) ?s1"
    by (simp add: log_event_def send_alarm_def tracked_def)
  show "\<exists>s' es. reap e (- 1 # ws) (Suc n) s = Inr s' \<and>
         trace s' = trace s @ [Wait] @ map (\<lambda>(i, j). Kill (pid (procs s i j))) (tracked s) @
                    [Print ''Break''] @ es"
    if enough: "Suc n \<le> length (filter (\<lambda>w. 0 < w) ws)"
  proof -
    obtain s' where s': "reap e ws (Suc n) ?s1 = Inr s'"
      using reap_leaves [OF enough] by blast
    obtain es where "trace (case_sum snd id (reap e ws (Suc n) ?s1)) = trace ?s1 @ es"
      using reap_trace by blast
    then have "trace s' = trace s @ [Wait] @ map (\<lambda>(i, j). Kill (pid (procs s i j))) (tracked s) @
                    [Print ''Break''] @ es"
      using s' by simp
    then show ?thesis
      unfolding step using s' by blast
  qed
  show "\<exists>s'. main cfg e ws' = Exited EXIT_SUCCESS s'"
    if "list_all (calloc_ok e) [0..<STRESS_MAX] \<and> total_procs cfg \<noteq> 0 \<and> shm_open_ok e \<and>
        ftruncate_ok e \<and> mmap_ok e \<and> total_procs cfg \<le> length (filter (\<lambda>w. 0 < w) ws')"
    using that by (intro main_exits) simp_all
  show "\<exists>b. reap e (- 1 # ws) (Suc n) s = Inl (Suc n, b)" if "list_all (\<lambda>w. w = - 1) ws"
    unfolding step using that by (rule reap_all_fail)
qed

theorem wait_failure_signals_all_and_run_ends_witness:
  "Suc 0 \<le> length (filter (\<lambda>w. 0 < w) [100 :: int]) \<and>
   (\<exists>s'. reap good_env [- 1, 100] (Suc 0) init_state = Inr s') \<and>
   list_all (calloc_ok good_env) [0..<STRESS_MAX] \<and>
   total_procs (default_config\<lparr>num_procs := (\<lambda>i. 0)(STRESS_CPU := 1)\<rparr>) \<noteq> 0 \<and>
   shm_open_ok good_env \<and> ftruncate_ok good_env \<and> mmap_ok good_env \<and>
   total_procs (default_config\<lparr>num_procs := (\<lambda>i. 0)(STRESS_CPU := 1)\<rparr>)
     \<le> length (filter (\<lambda>w. 0 < w) [- 1, 100 :: int]) \<and>
   (case main (default_config\<lparr>num_procs := (\<lambda>i. 0)(STRESS_CPU := 1)\<rparr>) good_env [- 1, 100] of
      Exited c s \<Rightarrow>
        c = EXIT_SUCCESS \<and>
        trace s =
          [Print ''dispatching hogs'', ShmUnlink, ShmOpen, Ftruncate 32, Mmap 32, CloseFd,
           Fork, Wait, Kill 100, Print ''Break'', Wait, Print ''successful run completed'',
           ShmUnlink]
    | Waiting n s \<Rightarrow> False) \<and>
   list_all (\<lambda>w. w = - 1) [- 1, - 1 :: int] \<and>
   (\<exists>b. reap good_env [- 1, - 1, - 1] (Suc 0) init_state = Inl (Suc 0, b))"
proof -
  let ?cfg = "default_config\<lparr>num_procs := (\<lambda>i. 0)(STRESS_CPU := 1)\<rparr>"
  have h1: "Suc 0 \<le> length (filter (\<lambda>w. 0 < w) [100 :: int])" by simp
  have h2: "list_all (calloc_ok good_env) [0..<STRESS_MAX]" by code_simp
  have h3: "total_procs ?cfg \<noteq> 0" by code_simp
  have h4: "shm_open_ok good_env" "ftruncate_ok good_env" "mmap_ok good_env"
    by (simp_all add: good_env_def)
  have h5: "total_procs ?cfg \<le> length (filter (\<lambda>w. 0 < w) [- 1, 100 :: int])" by code_simp
  have h6: "list_all (\<lambda>w. w = - 1) [- 1, - 1 :: int]" by simp
  have run: "(case main ?cfg good_env [- 1, 100] of
      Exited c s \<Rightarrow>
        c = EXIT_SUCCESS \<and>
        trace s =
          [Print ''dispatching hogs'', ShmUnlink, ShmOpen, Ftruncate 32, Mmap 32, CloseFd,
           Fork, Wait, Kill 100, Print ''Break'', Wait, Print ''successful run completed'',
           ShmUnlink]
    | Waiting n s \<Rightarrow> False)"
    by code_simp
  note a = wait_failure_signals_all_and_run_ends [of good_env "[100]" 0 init_state, THEN conjunct2,
      THEN conjunct1, rule_format, OF h1]
  note b = wait_failure_signals_all_and_run_ends [of good_env "[- 1, - 1]" 0 init_state,
      THEN conjunct2, THEN conjunct2, THEN conjunct2, rule_format, OF h6]
  have a': "\<exists>s'. reap good_env [- 1, 100] (Suc 0) init_state = Inr s'"
    using a by blast
  show ?thesis
    using h1 a' h2 h3 h4 h5 run h6 b by (intro conjI)
qed

section \<open>Rounding to a double\<close>

text \<open>
  Some values: an integer of 31 bits and a half are \<^verbatim>\<open>double\<close>s; a millionth is not, and
  is rounded to 53 bits; the two ties above \<open>2 ^ 53\<close> go to the even significand.
\<close>

lemma to_double_examples:
  "to_double 1700000000 = 1700000000 \<and> to_double (1 / 2) = 1 / 2 \<and>
   to_double (1 / 1000000) = 4722366482869645 / 2 ^ 72 \<and>
   to_double (- (1 / 1000000)) = - (4722366482869645 / 2 ^ 72) \<and>
   to_double (2 ^ 53 + 1) = 2 ^ 53 \<and> to_double (2 ^ 53 + 3) = 2 ^ 53 + 4"
  by code_simp

lemma round_even_near: "\<bar>of_int (round_even z) - z\<bar> \<le> 1 / 2"
proof -
  have "of_int \<lfloor>z\<rfloor> \<le> z" "z < of_int \<lfloor>z\<rfloor> + 1"
    by linarith+
  then show ?thesis
    by (auto simp: round_even_def Let_def)
qed

lemma binade_le:
  assumes "x \<noteq> 0"
  shows "2 powi (binade x) \<le> \<bar>x\<bar>"
proof (cases "1 \<le> \<bar>x\<bar>")
  case True
  let ?m = "\<lfloor>\<bar>x\<bar>\<rfloor>"
  have m: "0 < ?m"
    using True by linarith
  then have b: "2 ^ nat (bitlen ?m - 1) \<le> ?m"
    using bitlen_bounds [of ?m] by simp
  have "1 \<le> bitlen ?m"
    using m by (simp add: bitlen_alt_def)
  then have "(2 :: rat) powi (bitlen ?m - 1) = 2 ^ nat (bitlen ?m - 1)"
    by (simp add: power_int_def)
  also have "\<dots> = of_int (2 ^ nat (bitlen ?m - 1))"
    by simp
  also have "\<dots> \<le> of_int ?m"
    using b by (simp only: of_int_le_iff)
  also have "\<dots> \<le> \<bar>x\<bar>"
    by linarith
  finally show ?thesis
    using True by (simp add: binade_def)
next
  case False
  let ?y = "1 / \<bar>x\<bar>"
  let ?c = "\<lceil>?y\<rceil>"
  let ?k = "bitlen (?c - 1)"
  have xpos: "0 < \<bar>x\<bar>" using assms by simp
  have y1: "1 < ?y"
    using False xpos by (simp add: field_simps)
  then have c: "0 < ?c - 1"
    by linarith
  then have "?c - 1 < 2 ^ nat ?k"
    using bitlen_bounds [of "?c - 1"] by simp
  then have "?c \<le> 2 ^ nat ?k"
    by simp
  then have ck: "(of_int ?c :: rat) \<le> of_int (2 ^ nat ?k)"
    by (simp only: of_int_le_iff)
  have "?y \<le> of_int ?c"
    by (rule le_of_int_ceiling)
  also note ck
  also have "(of_int (2 ^ nat ?k) :: rat) = 2 ^ nat ?k"
    by simp
  finally have "?y \<le> 2 ^ nat ?k" .
  then have "1 / 2 ^ nat ?k \<le> \<bar>x\<bar>"
    using xpos by (simp add: field_simps)
  moreover have "(2 :: rat) powi (- ?k) = 1 / 2 ^ nat ?k"
    using bitlen_nonneg [of "?c - 1"] by (simp add: power_int_def field_simps)
  ultimately show ?thesis
    using False by (simp add: binade_def)
qed

lemma to_double_near:
  "\<bar>to_double x - x\<bar> \<le> \<bar>x\<bar> / 2 ^ 53"
proof (cases "x = 0")
  case True
  then show ?thesis by (simp add: to_double_def)
next
  case False
  define u :: rat where "u = 2 powi (binade x - 52)"
  have upos: "0 < u"
    by (simp add: u_def)
  have u2: "u = 2 powi (binade x) / 2 ^ 52"
    by (simp add: u_def power_int_diff)
  have "to_double x - x = (of_int (round_even (x / u)) - x / u) * u"
    using False upos by (simp add: to_double_def u_def [symmetric] Let_def field_simps)
  then have "\<bar>to_double x - x\<bar> = \<bar>of_int (round_even (x / u)) - x / u\<bar> * u"
    using upos by (simp add: abs_mult)
  also have "\<dots> \<le> (1 / 2) * u"
    using round_even_near [of "x / u"] upos by (intro mult_right_mono) simp_all
  also have "\<dots> = 2 powi (binade x) / 2 ^ 53"
    by (simp add: u2)
  also have "\<dots> \<le> \<bar>x\<bar> / 2 ^ 53"
    using binade_le [OF False] by (intro divide_right_mono) simp_all
  finally show ?thesis .
qed

lemma to_double_lower:
  assumes "0 \<le> x"
  shows "x * (1 - 1 / 2 ^ 53) \<le> to_double x"
proof -
  have "x - to_double x \<le> \<bar>to_double x - x\<bar>"
    by simp
  also have "\<dots> \<le> x / 2 ^ 53"
    using to_double_near [of x] assms by simp
  finally show ?thesis
    by (simp add: algebra_simps)
qed

lemma to_double_nonneg:
  assumes "0 \<le> x"
  shows "0 \<le> to_double x"
proof -
  have "0 \<le> x * (1 - 1 / 2 ^ 53)"
    using assms by (intro mult_nonneg_nonneg) simp_all
  then show ?thesis
    using to_double_lower [OF assms] by linarith
qed

lemma stamp_lower:
  assumes t: "0 \<le> t" and n: "0 \<le> n"
  shows "(t + of_int n / 1000000) * (1 - 1 / 2 ^ 53) ^ 3
           \<le> dadd t (ddiv (double_of_int n) 1000000)"
proof -
  define q :: rat where "q = 1 - 1 / 2 ^ 53"
  have q: "0 \<le> q" "q \<le> 1"
    by (simp_all add: q_def)
  define a where "a = to_double (of_int n)"
  define b where "b = to_double (a / 1000000)"
  have n': "(0 :: rat) \<le> of_int n"
    using n by simp
  have a: "of_int n * q \<le> a" and a0: "0 \<le> a"
    unfolding a_def q_def using to_double_lower [OF n'] to_double_nonneg [OF n'] by simp_all
  have a1: "0 \<le> a / 1000000"
    using a0 by simp
  have "of_int n / 1000000 * q * q \<le> a / 1000000 * q"
    using a q(1) by (intro mult_right_mono) simp_all
  also have "\<dots> \<le> b"
    unfolding b_def q_def using to_double_lower [OF a1] by simp
  finally have b: "of_int n / 1000000 * q * q \<le> b" .
  have b0: "0 \<le> b"
    unfolding b_def using a1 by (rule to_double_nonneg)
  have "t * q \<le> t * 1"
    using t q(2) by (intro mult_left_mono) simp_all
  then have "t * q * q \<le> t * 1 * 1"
    using t q by (intro mult_mono) simp_all
  then have "(t + of_int n / 1000000) * q * q \<le> t + b"
    using b by (simp add: algebra_simps)
  then have "(t + of_int n / 1000000) * q * q * q \<le> (t + b) * q"
    using q(1) by (intro mult_right_mono) simp_all
  also have "\<dots> \<le> to_double (t + b)"
    unfolding q_def using t b0 by (intro to_double_lower) simp
  finally show ?thesis
    by (simp add: dadd_def ddiv_def double_of_int_def a_def b_def q_def power3_eq_cube
        mult.assoc)
qed

section \<open>The launch loop: rounds, delays and start stamps\<close>

lemma set_tracked: "set (tracked s) = {(i, j). i < STRESS_MAX \<and> j < started_procs s i}"
  by (auto simp: tracked_def)

lemma launch_inv_frame:
  assumes "launch_inv cfg e s"
    and "children s' = children s" and "started_procs s' = started_procs s"
    and "\<And>i j. start (procs s' i j) = start (procs s i j)"
  shows "launch_inv cfg e s'"
  using assms by (simp add: launch_inv_def)

lemma launch_one_inv:
  assumes inv: "launch_inv cfg e s" and i: "i < STRESS_MAX"
    and st: "started_procs s i = min n (num_procs cfg i)"
  shows "launch_inv cfg e (case_sum id id (launch_one cfg e mx n i s))"
proof (cases "started_procs s i < num_procs cfg i")
  case False
  then show ?thesis using inv by (simp add: launch_one_skip)
next
  case True
  then have j: "started_procs s i = n"
    using st by (simp add: min_def split: if_splits)
  show ?thesis
  proof (cases "fork_result e (forks s)")
    case ForkFailed
    show ?thesis
      unfolding launch_one_failed [OF True ForkFailed]
      by (rule launch_inv_frame [OF inv])
         (simp_all add: send_alarm_def pr_err_def log_event_def)
  next
    case (Forked p)
    let ?s' = "s\<lparr>forks := Suc (forks s),
            children := children s @ [the_child cfg mx n i (started_procs s i)],
            procs := (procs s)(i := (procs s i)(started_procs s i :=
               (procs s i (started_procs s i))\<lparr>pid := p,
                  start := dadd (time_now e (clock_reads s))
                    (ddiv (double_of_int (opt_backoff cfg * int n)) 1000000)\<rparr>)),
            clock_reads := Suc (clock_reads s),
            started_procs := (started_procs s)(i := Suc (started_procs s i)),
            trace := trace s @ [Fork]\<rparr>"
    have q1: "\<forall>c \<in> set (children ?s').
        child_round c = child_index c \<and>
        child_usleep c = word_of_int (opt_backoff cfg * int (child_index c))"
      using inv j by (simp add: launch_inv_def the_child_def)
    have old: "(\<lambda>c. (child_category c, child_index c)) ` set (children s) =
        {(i, j). i < STRESS_MAX \<and> j < started_procs s i}"
      using inv by (simp add: launch_inv_def)
    have q2: "(\<lambda>c. (child_category c, child_index c)) ` set (children ?s') =
        {(i', j'). i' < STRESS_MAX \<and> j' < started_procs ?s' i'}"
      using i j by (auto simp: old the_child_def less_Suc_eq split: if_splits)
    have q3: "\<exists>k. start (procs ?s' i' j') =
              dadd (time_now e k) (ddiv (double_of_int (opt_backoff cfg * int j')) 1000000)"
      if "i' < STRESS_MAX" and "j' < started_procs ?s' i'" for i' j'
    proof (cases "i' = i \<and> j' = n")
      case True
      then show ?thesis using j by auto
    next
      case False
      then have "j' < started_procs s i'"
        using that(2) j by (auto simp: less_Suc_eq split: if_splits)
      then have "\<exists>k. start (procs s i' j') =
              dadd (time_now e k) (ddiv (double_of_int (opt_backoff cfg * int j')) 1000000)"
        using inv that(1) by (simp add: launch_inv_def)
      then show ?thesis
        using False j by auto
    qed
    have "launch_inv cfg e ?s'"
      unfolding launch_inv_def using q1 q2 q3 by blast
    then show ?thesis
      unfolding launch_one_forked [OF True Forked] by simp
  qed
qed

lemma launch_one_started:
  assumes "started_procs s i = min n (num_procs cfg i)"
    and "launch_one cfg e mx n i s = Inr s'"
  shows "started_procs s' = (started_procs s)(i := min (Suc n) (num_procs cfg i))"
proof (cases "started_procs s i < num_procs cfg i")
  case False
  then show ?thesis
    using assms by (auto simp: launch_one_skip min_def)
next
  case True
  then have j: "started_procs s i = n" "n < num_procs cfg i"
    using assms(1) by (simp_all add: min_def split: if_splits)
  show ?thesis
  proof (cases "fork_result e (forks s)")
    case ForkFailed
    then show ?thesis
      using assms(2) True by (simp add: launch_one_failed)
  next
    case (Forked p)
    then show ?thesis
      using assms(2) True j by (auto simp: launch_one_forked min_def)
  qed
qed

lemma launch_round_inv:
  assumes "launch_inv cfg e s" and "\<forall>i \<in> set is. i < STRESS_MAX" and "distinct is"
    and "\<forall>i \<in> set is. started_procs s i = min n (num_procs cfg i)"
  shows "launch_inv cfg e (case_sum id id (launch_round cfg e mx n is s)) \<and>
         (\<forall>s'. launch_round cfg e mx n is s = Inr s' \<longrightarrow>
            (\<forall>i \<in> set is. started_procs s' i = min (Suc n) (num_procs cfg i)) \<and>
            (\<forall>i. i \<notin> set is \<longrightarrow> started_procs s' i = started_procs s i))"
  using assms
proof (induction "is" arbitrary: s)
  case Nil
  then show ?case by simp
next
  case (Cons i "is")
  have one: "launch_inv cfg e (case_sum id id (launch_one cfg e mx n i s))"
    using Cons.prems by (intro launch_one_inv) simp_all
  show ?case
  proof (cases "launch_one cfg e mx n i s")
    case (Inl a)
    then show ?thesis using one by simp
  next
    case (Inr s1)
    have st1: "started_procs s1 = (started_procs s)(i := min (Suc n) (num_procs cfg i))"
      using Cons.prems(4) Inr by (intro launch_one_started) simp_all
    have inv1: "launch_inv cfg e s1"
      using one Inr by simp
    have rest: "\<forall>i' \<in> set is. started_procs s1 i' = min n (num_procs cfg i')"
      using Cons.prems(3,4) st1 by auto
    have IH: "launch_inv cfg e (case_sum id id (launch_round cfg e mx n is s1)) \<and>
         (\<forall>s'. launch_round cfg e mx n is s1 = Inr s' \<longrightarrow>
            (\<forall>i \<in> set is. started_procs s' i = min (Suc n) (num_procs cfg i)) \<and>
            (\<forall>i. i \<notin> set is \<longrightarrow> started_procs s' i = started_procs s1 i))"
      using Cons.prems(2,3) by (intro Cons.IH [OF inv1 _ _ rest]) simp_all
    show ?thesis
      using IH Inr st1 Cons.prems(3) by auto
  qed
qed

lemma launch_rounds_inv:
  assumes "launch_inv cfg e s"
    and "\<forall>i < STRESS_MAX. started_procs s i = min n (num_procs cfg i)"
  shows "launch_inv cfg e (case_sum id id (launch_rounds cfg e mx [n..<m] s))"
  using assms
proof (induction "m - n" arbitrary: n s)
  case 0
  then show ?case by simp
next
  case (Suc d)
  then have nm: "n < m" by simp
  then have upt: "[n..<m] = n # [Suc n..<m]"
    by (rule upt_conv_Cons)
  have r: "launch_inv cfg e (case_sum id id (launch_round cfg e mx n [0..<STRESS_MAX] s)) \<and>
         (\<forall>s'. launch_round cfg e mx n [0..<STRESS_MAX] s = Inr s' \<longrightarrow>
            (\<forall>i \<in> set [0..<STRESS_MAX]. started_procs s' i = min (Suc n) (num_procs cfg i)) \<and>
            (\<forall>i. i \<notin> set [0..<STRESS_MAX] \<longrightarrow> started_procs s' i = started_procs s i))"
    using Suc.prems by (intro launch_round_inv) simp_all
  show ?case
  proof (cases "launch_round cfg e mx n [0..<STRESS_MAX] s")
    case (Inl a)
    then show ?thesis using r upt by simp
  next
    case (Inr s1)
    have "launch_inv cfg e (case_sum id id (launch_rounds cfg e mx [Suc n..<m] s1))"
      using Suc.hyps(2) r Inr by (intro Suc.hyps(1)) auto
    then show ?thesis
      using Inr upt by simp
  qed
qed

lemma proc_finished_inv:
  assumes "launch_inv cfg e s"
  shows "launch_inv cfg e (proc_finished e p s)"
  by (rule launch_inv_frame [OF assms])
     (auto simp: proc_finished_def Let_def split: option.splits)

lemma reap_inv:
  "launch_inv cfg e s \<Longrightarrow> launch_inv cfg e (case_sum snd id (reap e ws n s))"
proof (induction e ws n s rule: reap.induct)
  case (3 e w ws n s)
  have w: "launch_inv cfg e (log_event Wait s)"
    by (rule launch_inv_frame [OF 3(4)]) (simp_all add: log_event_def)
  have f: "launch_inv cfg e (proc_finished e w (log_event Wait s))"
    using w by (rule proc_finished_inv)
  have b: "launch_inv cfg e (log_event (Print ''Break'') (send_alarm (log_event Wait s)))"
    by (rule launch_inv_frame [OF 3(4)]) (simp_all add: log_event_def send_alarm_def)
  show ?case
    using 3(1-3) w f b by simp
qed simp_all

lemma launch_one_time_start:
  "time_start (case_sum id id (launch_one cfg e mx n i s)) = time_start s"
proof (cases "started_procs s i < num_procs cfg i")
  case False
  then show ?thesis by (simp add: launch_one_skip)
next
  case True
  then show ?thesis
    by (cases "fork_result e (forks s)")
       (simp_all add: launch_one_failed launch_one_forked send_alarm_def pr_err_def log_event_def)
qed

lemma launch_round_time_start:
  "time_start (case_sum id id (launch_round cfg e mx n is s)) = time_start s"
proof (induction "is" arbitrary: s)
  case Nil
  then show ?case by simp
next
  case (Cons i "is")
  show ?case
    using launch_one_time_start [of cfg e mx n i s] Cons.IH
    by (cases "launch_one cfg e mx n i s") simp_all
qed

lemma launch_rounds_time_start:
  "time_start (case_sum id id (launch_rounds cfg e mx ns s)) = time_start s"
proof (induction ns arbitrary: s)
  case Nil
  then show ?case by simp
next
  case (Cons n ns)
  show ?case
    using launch_round_time_start [of cfg e mx n "[0..<STRESS_MAX]" s] Cons.IH
    by (cases "launch_round cfg e mx n [0..<STRESS_MAX] s") simp_all
qed

lemma proc_finished_time_start: "time_start (proc_finished e p s) = time_start s"
  by (simp add: proc_finished_def Let_def split: option.splits prod.splits)

lemma reap_time_start:
  "time_start (case_sum snd id (reap e ws n s)) = time_start s"
  by (induction e ws n s rule: reap.induct)
     (simp_all add: proc_finished_time_start log_event_def send_alarm_def)

lemma launch_inv_init:
  "children s = [] \<Longrightarrow> started_procs s = (\<lambda>i. 0) \<Longrightarrow> launch_inv cfg e s"
  by (simp add: launch_inv_def)

lemma pr_frame:
  "children (pr_err cfg msg s) = children s" "started_procs (pr_err cfg msg s) = started_procs s"
  "procs (pr_err cfg msg s) = procs s" "time_start (pr_err cfg msg s) = time_start s"
  "clock_reads (pr_err cfg msg s) = clock_reads s"
  "children (pr_inf cfg msg s) = children s" "started_procs (pr_inf cfg msg s) = started_procs s"
  "procs (pr_inf cfg msg s) = procs s" "time_start (pr_inf cfg msg s) = time_start s"
  "clock_reads (pr_inf cfg msg s) = clock_reads s"
  "children (log_event ev s) = children s" "started_procs (log_event ev s) = started_procs s"
  "procs (log_event ev s) = procs s" "time_start (log_event ev s) = time_start s"
  "clock_reads (log_event ev s) = clock_reads s"
  by (simp_all add: pr_err_def pr_inf_def log_event_def)

lemma shm_setup_frame:
  "children (case_sum id id (shm_setup cfg e s)) = children s"
  "started_procs (case_sum id id (shm_setup cfg e s)) = started_procs s"
  "clock_reads (case_sum id id (shm_setup cfg e s)) = clock_reads s"
  by (simp_all add: shm_setup_def Let_def pr_frame)

lemma main_inv:
  "launch_inv cfg e (final_state (main cfg e ws)) \<and>
   (started_procs (final_state (main cfg e ws)) = (\<lambda>i. 0) \<or>
    time_start (final_state (main cfg e ws)) = time_now e 0)"
proof -
  let ?s0 = "pr_inf cfg ''dispatching hogs'' init_state"
  have init: "children init_state = []" "started_procs init_state = (\<lambda>i. 0)"
      "clock_reads init_state = 0"
    by (simp_all add: init_state_def)
  consider (calloc) "\<not> list_all (calloc_ok e) [0..<STRESS_MAX]"
    | (none) "list_all (calloc_ok e) [0..<STRESS_MAX]" "total_procs cfg = 0"
    | (go) "list_all (calloc_ok e) [0..<STRESS_MAX]" "total_procs cfg \<noteq> 0"
    by blast
  then show ?thesis
  proof cases
    case calloc
    then show ?thesis
      by (simp add: main_def launch_inv_init pr_frame init)
  next
    case none
    then show ?thesis
      by (simp add: main_def launch_inv_init pr_frame init)
  next
    case go
    have fr: "children (case_sum id id (shm_setup cfg e ?s0)) = []"
        "started_procs (case_sum id id (shm_setup cfg e ?s0)) = (\<lambda>i. 0)"
        "clock_reads (case_sum id id (shm_setup cfg e ?s0)) = 0"
      by (simp_all add: shm_setup_frame pr_frame init)
    show ?thesis
    proof (cases "shm_setup cfg e ?s0")
      case (Inl a)
      then show ?thesis
        using go fr by (simp add: main_def launch_inv_init)
    next
      case (Inr s)
      let ?s2 = "s\<lparr>time_start := time_now e (clock_reads s), clock_reads := Suc (clock_reads s)\<rparr>"
      have s: "children s = []" "started_procs s = (\<lambda>i. 0)" "clock_reads s = 0"
        using fr Inr by simp_all
      have inv2: "launch_inv cfg e ?s2"
        using s by (simp add: launch_inv_init)
      have ts2: "time_start ?s2 = time_now e 0"
        using s by simp
      have linv: "launch_inv cfg e (case_sum id id (launch cfg e ?s2))"
        unfolding launch_def using inv2 s by (intro launch_rounds_inv) simp_all
      have lts: "time_start (case_sum id id (launch cfg e ?s2)) = time_now e 0"
        using ts2 launch_rounds_time_start [of cfg e "max_procs cfg" "[0..<total_procs cfg]" ?s2]
        by (simp only: launch_def)
      show ?thesis
      proof (cases "launch cfg e ?s2")
        case (Inl a)
        have "launch_inv cfg e a"
          using linv Inl by simp
        then have "launch_inv cfg e (log_event ShmUnlink a)"
          by (rule launch_inv_frame) (simp_all add: pr_frame)
        moreover have "time_start (log_event ShmUnlink a) = time_now e 0"
          using lts Inl by (simp add: pr_frame)
        ultimately show ?thesis
          using go Inr Inl by (simp add: main_def finish_out_def)
      next
        case (Inr s')
        have rinv: "launch_inv cfg e (case_sum snd id (reap e ws (total_procs cfg) s'))"
          using linv Inr by (intro reap_inv) simp
        have rts: "time_start (case_sum snd id (reap e ws (total_procs cfg) s')) = time_now e 0"
          using lts Inr by (simp add: reap_time_start)
        show ?thesis
        proof (cases "reap e ws (total_procs cfg) s'")
          case (Inl nb)
          then show ?thesis
            using go \<open>shm_setup cfg e ?s0 = Inr s\<close> \<open>launch cfg e ?s2 = Inr s'\<close> rinv rts
            by (cases nb) (simp add: main_def)
        next
          case r: (Inr s'')
          let ?f = "log_event ShmUnlink (pr_inf cfg ''successful run completed''
                         (s''\<lparr>clock_reads := Suc (clock_reads s'')\<rparr>))"
          have "launch_inv cfg e s''"
            using rinv r by simp
          then have "launch_inv cfg e ?f"
            by (rule launch_inv_frame) (simp_all add: pr_frame)
          moreover have "time_start ?f = time_now e 0"
            using rts r by (simp add: pr_frame)
          ultimately show ?thesis
            using go \<open>shm_setup cfg e ?s0 = Inr s\<close> \<open>launch cfg e ?s2 = Inr s'\<close> r
            by (simp add: main_def finish_out_def)
        qed
      qed
    qed
  qed
qed

lemma uint_useconds:
  assumes "0 \<le> x" and "x < 2 ^ 32"
  shows "uint (word_of_int x :: 32 word) = x"
proof -
  have "uint (word_of_int x :: 32 word) = take_bit 32 x"
    by (simp add: uint_word_of_int_eq)
  also have "\<dots> = x"
    using assms by (rule take_bit_int_eq_self)
  finally show ?thesis .
qed

text \<open>
  The claim C6 fails. With one io and one cpu worker, a backoff of one second and a clock
  that advances 1/1024 s per reading, the second worker spawned sleeps 0 microseconds, and
  its start stamp, 2/1024 s, is before the start time plus one backoff: the index that
  counts is the round, not the place in the order of spawning. With two io workers, a
  backoff of one microsecond and the clock standing at 1700000000 s, the second worker
  (round 1) sleeps one microsecond, but its stamp is 1700000000 + 2^-20, below the start
  time plus one microsecond: the sum is rounded to a \<^verbatim>\<open>double\<close>.
\<close>

theorem second_worker_not_delayed:
  "(case main (default_config\<lparr>num_procs := (\<lambda>i. 0)(STRESS_IOSYNC := 1, STRESS_CPU := 1),
                             opt_backoff := 1000000\<rparr>)
           (good_env\<lparr>time_now := (\<lambda>k. of_nat k / 1024)\<rparr>) [100, 101] of
      Exited c s \<Rightarrow>
        map (\<lambda>c. (child_category c, child_usleep c)) (children s) = [(0, 0), (1, 0)] \<and>
        map (\<lambda>(i, j). pid (procs s i j)) (tracked s) = [100, 101] \<and>
        time_start s = 0 \<and>
        start (procs s 1 0) = 2 / 1024 \<and>
        start (procs s 1 0) < time_start s + 1000000 * 1 / 1000000
    | Waiting n s \<Rightarrow> False) \<and>
   (case main (default_config\<lparr>num_procs := (\<lambda>i. 0)(STRESS_IOSYNC := 2), opt_backoff := 1\<rparr>)
           (good_env\<lparr>time_now := (\<lambda>k. 1700000000)\<rparr>) [100, 101] of
      Exited c s \<Rightarrow>
        map (\<lambda>c. (child_category c, child_index c, child_usleep c)) (children s) =
          [(0, 0, 0), (0, 1, 1)] \<and>
        time_start s = 1700000000 \<and>
        start (procs s 0 1) = 1700000000 + 1 / 2 ^ 20 \<and>
        start (procs s 0 1) < time_start s + 1 * 1 / 1000000
    | Waiting n s \<Rightarrow> False)"
  by code_simp

text \<open>
  C6, amended. Every spawned worker was forked in the round (the value of
  \<^verbatim>\<open>n_procs\<close>) that equals its index within its own category, so workers of different
  categories share a round. The worker asks \<^verbatim>\<open>usleep\<close> for the backoff times that round,
  as a 32-bit \<^verbatim>\<open>useconds_t\<close> (the exact product when that is within range); the children
  are exactly the tracked entries; each entry's start stamp is the \<^verbatim>\<open>double\<close> sum of a
  reading of the clock and the backoff times the round, in seconds. Rounding can leave
  that sum below the exact one, by a factor of \<open>(1 - 2^-53)^3\<close> at most: with a clock
  that never reads less than the orchestrator's start time, and neither that time nor
  the backoff negative, the stamp is at least that factor times the start time plus the
  delay.
\<close>

theorem backoff_delay_by_round:
  "(\<forall>c \<in> set (children (final_state (main cfg e ws))).
      child_round c = child_index c \<and>
      child_usleep c = word_of_int (opt_backoff cfg * int (child_index c)) \<and>
      (0 \<le> opt_backoff cfg * int (child_index c) \<and>
       opt_backoff cfg * int (child_index c) < 2 ^ 32 \<longrightarrow>
         uint (child_usleep c) = opt_backoff cfg * int (child_index c))) \<and>
   (\<lambda>c. (child_category c, child_index c)) ` set (children (final_state (main cfg e ws))) =
      set (tracked (final_state (main cfg e ws))) \<and>
   (\<forall>(i, j) \<in> set (tracked (final_state (main cfg e ws))).
      \<exists>k. start (procs (final_state (main cfg e ws)) i j) =
             dadd (time_now e k) (ddiv (double_of_int (opt_backoff cfg * int j)) 1000000)) \<and>
   ((\<forall>k. time_now e 0 \<le> time_now e k) \<and> 0 \<le> time_now e 0 \<and> 0 \<le> opt_backoff cfg \<longrightarrow>
      (\<forall>(i, j) \<in> set (tracked (final_state (main cfg e ws))).
         (time_start (final_state (main cfg e ws)) +
            of_int (opt_backoff cfg * int j) / 1000000) * (1 - 1 / 2 ^ 53) ^ 3
           \<le> start (procs (final_state (main cfg e ws)) i j)))"
proof -
  let ?s = "final_state (main cfg e ws)"
  have inv: "launch_inv cfg e ?s"
    and ts: "started_procs ?s = (\<lambda>i. 0) \<or> time_start ?s = time_now e 0"
    using main_inv [of cfg e ws] by simp_all
  have a: "\<forall>c \<in> set (children ?s).
      child_round c = child_index c \<and>
      child_usleep c = word_of_int (opt_backoff cfg * int (child_index c)) \<and>
      (0 \<le> opt_backoff cfg * int (child_index c) \<and>
       opt_backoff cfg * int (child_index c) < 2 ^ 32 \<longrightarrow>
         uint (child_usleep c) = opt_backoff cfg * int (child_index c))"
  proof
    fix c assume "c \<in> set (children ?s)"
    then have r: "child_round c = child_index c"
      and u: "child_usleep c = word_of_int (opt_backoff cfg * int (child_index c))"
      using inv unfolding launch_inv_def by blast+
    have "uint (child_usleep c) = opt_backoff cfg * int (child_index c)"
      if "0 \<le> opt_backoff cfg * int (child_index c)"
        and "opt_backoff cfg * int (child_index c) < 2 ^ 32"
      unfolding u using that by (rule uint_useconds)
    with r u show "child_round c = child_index c \<and>
      child_usleep c = word_of_int (opt_backoff cfg * int (child_index c)) \<and>
      (0 \<le> opt_backoff cfg * int (child_index c) \<and>
       opt_backoff cfg * int (child_index c) < 2 ^ 32 \<longrightarrow>
         uint (child_usleep c) = opt_backoff cfg * int (child_index c))"
      by blast
  qed
  have b: "(\<lambda>c. (child_category c, child_index c)) ` set (children ?s) = set (tracked ?s)"
    using inv by (simp add: launch_inv_def set_tracked)
  have c: "\<forall>(i, j) \<in> set (tracked ?s).
      \<exists>k. start (procs ?s i j) =
            dadd (time_now e k) (ddiv (double_of_int (opt_backoff cfg * int j)) 1000000)"
    using inv by (auto simp: launch_inv_def set_tracked)
  have d: "\<forall>(i, j) \<in> set (tracked ?s).
         (time_start ?s + of_int (opt_backoff cfg * int j) / 1000000) * (1 - 1 / 2 ^ 53) ^ 3
           \<le> start (procs ?s i j)"
    if hyp: "(\<forall>k. time_now e 0 \<le> time_now e k) \<and> 0 \<le> time_now e 0 \<and> 0 \<le> opt_backoff cfg"
  proof (clarify)
    fix i j assume ij: "(i, j) \<in> set (tracked ?s)"
    then have "j < started_procs ?s i"
      by (simp add: set_tracked)
    then have t0: "time_start ?s = time_now e 0"
      using ts by auto
    obtain k where k: "start (procs ?s i j) =
        dadd (time_now e k) (ddiv (double_of_int (opt_backoff cfg * int j)) 1000000)"
      using c ij by blast
    have tk: "time_now e 0 \<le> time_now e k" "0 \<le> time_now e k"
      using hyp order_trans [of 0 "time_now e 0" "time_now e k"] by simp_all
    have n: "0 \<le> opt_backoff cfg * int j"
      using hyp by simp
    have "(time_start ?s + of_int (opt_backoff cfg * int j) / 1000000) * (1 - 1 / 2 ^ 53) ^ 3
        \<le> (time_now e k + of_int (opt_backoff cfg * int j) / 1000000) * (1 - 1 / 2 ^ 53) ^ 3"
      unfolding t0 using tk(1) by (intro mult_right_mono) simp_all
    also have "\<dots> \<le> start (procs ?s i j)"
      unfolding k using tk(2) n by (rule stamp_lower)
    finally show "(time_start ?s + of_int (opt_backoff cfg * int j) / 1000000) *
        (1 - 1 / 2 ^ 53) ^ 3 \<le> start (procs ?s i j)" .
  qed
  have d': "(\<forall>k. time_now e 0 \<le> time_now e k) \<and> 0 \<le> time_now e 0 \<and> 0 \<le> opt_backoff cfg \<longrightarrow>
      (\<forall>(i, j) \<in> set (tracked ?s).
         (time_start ?s + of_int (opt_backoff cfg * int j) / 1000000) * (1 - 1 / 2 ^ 53) ^ 3
           \<le> start (procs ?s i j))"
    using d by (rule impI)
  show ?thesis
    by (rule conjI [OF a conjI [OF b conjI [OF c d']]])
qed

theorem backoff_delay_by_round_witness:
  "(\<forall>k. time_now good_env 0 \<le> time_now good_env k) \<and> 0 \<le> time_now good_env 0 \<and>
   0 \<le> opt_backoff (default_config\<lparr>num_procs := (\<lambda>i. 0)(STRESS_IOSYNC := 2, STRESS_CPU := 1),
                             opt_backoff := 500000\<rparr>) \<and>
   (case main (default_config\<lparr>num_procs := (\<lambda>i. 0)(STRESS_IOSYNC := 2, STRESS_CPU := 1),
                             opt_backoff := 500000\<rparr>) good_env [100, 101, 102] of
      Exited c s \<Rightarrow>
        map (\<lambda>c. (child_category c, child_index c, child_round c, child_usleep c)) (children s) =
          [(0, 0, 0, 0), (1, 0, 0, 0), (0, 1, 1, 500000)] \<and>
        tracked s = [(0, 0), (0, 1), (1, 0)] \<and>
        time_start s = 0 \<and>
        start (procs s 0 1) = 3 + 1 / 2
    | Waiting n s \<Rightarrow> False)"
proof -
  have mono: "\<forall>k. time_now good_env 0 \<le> time_now good_env k"
    by (simp add: good_env_def)
  have pos: "0 \<le> time_now good_env 0"
    by (simp add: good_env_def)
  have bo: "0 \<le> opt_backoff (default_config\<lparr>num_procs := (\<lambda>i. 0)(STRESS_IOSYNC := 2, STRESS_CPU := 1),
                             opt_backoff := 500000\<rparr>)"
    by simp
  have run: "(case main (default_config\<lparr>num_procs := (\<lambda>i. 0)(STRESS_IOSYNC := 2, STRESS_CPU := 1),
                             opt_backoff := 500000\<rparr>) good_env [100, 101, 102] of
      Exited c s \<Rightarrow>
        map (\<lambda>c. (child_category c, child_index c, child_round c, child_usleep c)) (children s) =
          [(0, 0, 0, 0), (1, 0, 0, 0), (0, 1, 1, 500000)] \<and>
        tracked s = [(0, 0), (0, 1), (1, 0)] \<and>
        time_start s = 0 \<and>
        start (procs s 0 1) = 3 + 1 / 2
    | Waiting n s \<Rightarrow> False)"
    by code_simp
  show ?thesis
    using mono pos bo run
      backoff_delay_by_round [of "default_config\<lparr>num_procs := (\<lambda>i. 0)(STRESS_IOSYNC := 2, STRESS_CPU := 1),
                             opt_backoff := 500000\<rparr>" good_env "[100, 101, 102]"]
    by (intro conjI)
qed

section \<open>The killer of \<^verbatim>\<open>stress_wait\<close>: the watchdog\<close>





lemma killer_loop_stalled_exit:
  "k_stalled (killer_loop mx obs st lc cs) \<Longrightarrow>
   k_exit (killer_loop mx obs st lc cs) = Some EXIT_SUCCESS"
  by (induction obs arbitrary: st lc cs) (auto simp: Let_def killer_exit_def split: if_splits)



end
